theory Spec2Isabelle
  imports Main "HOL-Library.Word"
begin

unbundle bit_operations_syntax

section \<open>Program counters (coz/coroutine.hpp, namespace coz::detail)\<close>

text \<open>
  \<^verbatim>\<open>enum : unsigned { SENTINEL = ~0u };\<close>
  \<^verbatim>\<open>struct coro_state { unsigned m_next = SENTINEL; unsigned m_eh = SENTINEL; };\<close>
\<close>

type_synonym pc = "32 word"

definition SENTINEL :: pc where
  "SENTINEL = NOT 0"

record coro_state =
  m_next :: pc
  m_eh :: pc

section \<open>Frame layout solver\<close>

text \<open>
  \<^verbatim>\<open>struct size_align { std::size_t size; std::size_t align; ... unite(a, b) ... };\<close>
  The two fields are only ever compared with \<^verbatim>\<open>std::max\<close>, which cannot overflow, so
  \<^verbatim>\<open>std::size_t\<close> is read as \<open>nat\<close>.  The value-initialised \<^verbatim>\<open>size_align{}\<close> is
  \<open>size_align_zero\<close>.
\<close>

record size_align =
  size_sa :: nat
  align_sa :: nat

definition size_align_zero :: size_align where
  "size_align_zero = \<lparr>size_sa = 0, align_sa = 0\<rparr>"

definition unite :: "size_align \<Rightarrow> size_align \<Rightarrow> size_align" where
  "unite a b = \<lparr>size_sa = max (size_sa a) (size_sa b), align_sa = max (align_sa a) (align_sa b)\<rparr>"

text \<open>
  The stateful-metaprogramming store of one \<^verbatim>\<open>Domain\<close>: the observation with index
  \<open>N\<close> (the friend function \<^verbatim>\<open>observe(smp_bump<Domain, N>)\<close> defined by
  \<^verbatim>\<open>smp_store_state<Domain, N, C>\<close>) is the \<open>N\<close>-th element of the list.  Defining an
  observation twice, or loading from a store without any observation, does not compile:
  both are \<open>None\<close>.
\<close>

type_synonym smp_store = "size_align list"

definition observed :: "smp_store \<Rightarrow> nat \<Rightarrow> bool" where
  "observed st N = (N < length st)"

definition smp_store_state :: "smp_store \<Rightarrow> nat \<Rightarrow> size_align \<Rightarrow> smp_store option" where
  "smp_store_state st N C = (if N = length st then Some (st @ [C]) else None)"

function smp_load_state :: "smp_store \<Rightarrow> nat \<Rightarrow> (nat \<times> size_align) option" where
  "smp_load_state st N =
     (if observed st N then smp_load_state st (N + 1)
      else if N = 0 then None
      else Some (N - 1, st ! (N - 1)))"
  by pat_completeness auto
termination
  by (relation "measure (\<lambda>(st, N). length st - N)") (auto simp: observed_def)

declare smp_load_state.simps [simp del]

definition smp_init_state :: "size_align \<Rightarrow> smp_store option" where
  "smp_init_state C = smp_store_state [] 0 C"

definition get_size_align :: "smp_store \<Rightarrow> size_align option" where
  "get_size_align st = map_option snd (smp_load_state st 0)"

definition update_size_align_impl :: "size_align \<Rightarrow> smp_store \<Rightarrow> smp_store option" where
  "update_size_align_impl Val st =
     (case smp_load_state st 0 of
        None \<Rightarrow> None
      | Some (index, val) \<Rightarrow> smp_store_state st (index + 1) (unite Val val))"

text \<open>
  One coroutine body: \<^verbatim>\<open>smp_init_state<_coz_state, size_align{}>()\<close> at the head of
  \<^verbatim>\<open>operator()\<close>, one \<^verbatim>\<open>update_size_align\<close> per registering suspension point (the list
  \<open>regs\<close> holds \<^verbatim>\<open>size_align_of<T>\<close> of each, in the order they are instantiated), and
  \<^verbatim>\<open>get_size_align<_coz_state, SENTINEL>()\<close> in the return statement.
\<close>

fun update_all :: "size_align list \<Rightarrow> smp_store \<Rightarrow> smp_store option" where
  "update_all [] st = Some st"
| "update_all (r # regs) st =
     (case update_size_align_impl r st of None \<Rightarrow> None | Some st' \<Rightarrow> update_all regs st')"

definition frame_layout :: "size_align list \<Rightarrow> size_align option" where
  "frame_layout regs =
     (case smp_init_state size_align_zero of
        None \<Rightarrow> None
      | Some st0 \<Rightarrow> (case update_all regs st0 of None \<Rightarrow> None | Some st \<Rightarrow> get_size_align st))"

section \<open>Promise, awaiter and coroutine instance\<close>

text \<open>
  The hooks of a \<^verbatim>\<open>Promise\<close> over its own state \<open>'p\<close>.  A hook that can throw returns
  the exception (if any) next to the state it leaves; \<^verbatim>\<open>finalize\<close> runs inside a
  destructor and cannot.  A promise has \<^verbatim>\<open>return_void\<close> or \<^verbatim>\<open>return_value\<close>;
  \<^verbatim>\<open>implicit_return\<close> and \<^verbatim>\<open>explicit_return\<close> select an overload on the presence of
  \<^verbatim>\<open>return_void\<close>.
\<close>

record ('p, 'v, 'x) promise_hooks =
  finalize :: "'p \<Rightarrow> 'p"
  yield_value :: "'v \<Rightarrow> 'p \<Rightarrow> 'x option \<times> 'p"
  return_void :: "('p \<Rightarrow> 'x option \<times> 'p) option"
  return_value :: "('v \<Rightarrow> 'p \<Rightarrow> 'x option \<times> 'p) option"
  unhandled_exception :: "'x \<Rightarrow> 'p \<Rightarrow> 'x option \<times> 'p"

text \<open>
  An awaiter: \<^verbatim>\<open>await_ready()\<close>, \<^verbatim>\<open>await_suspend(coroutine_handle)\<close> whose return type
  is \<^verbatim>\<open>void\<close> or \<^verbatim>\<open>bool\<close>, and \<^verbatim>\<open>await_resume()\<close>.  The handle gives the awaiter the
  \<^verbatim>\<open>coro_base\<close> of the suspending coroutine, here its two program counters.
\<close>

datatype susp_ret = RetVoid | RetBool bool

record 'v awaiter =
  await_ready :: bool
  await_suspend :: "coro_state \<Rightarrow> susp_ret"
  await_resume :: 'v

text \<open>Calls of hooks and of user code, in the order they happen.\<close>

datatype ('v, 'x) event =
    EvExec
  | EvYieldValue 'v
  | EvReturnVoid
  | EvReturnValue 'v
  | EvFinalize
  | EvUnhandled 'x
  | EvHandler 'x
  | EvAwaitReady
  | EvAwaitSuspend
  | EvAwaitResume

text \<open>
  \<^verbatim>\<open>coroutine<Promise, Params, State>\<close>: the \<^verbatim>\<open>coro_state\<close> base, the promise, and the
  \<^verbatim>\<open>body\<close> with the \<^verbatim>\<open>manual_lifetime<State>\<close> closure (\<open>None\<close> while no \<^verbatim>\<open>State\<close>
  object lives there) and the scratch buffer \<^verbatim>\<open>m_mem_tmp\<close> (\<open>None\<close> while it holds no
  object).
\<close>

datatype 'v occupant = TmpValue 'v | TmpAwaiter "'v awaiter"

record ('p, 's, 'v, 'x) coroutine = coro_state +
  promise :: 'p
  m_state :: "'s option"
  m_mem_tmp :: "'v occupant option"
  trace :: "('v, 'x) event list"

definition coroutine_init :: "'p \<Rightarrow> ('p, 's, 'v, 'x) coroutine" where
  "coroutine_init p = \<lparr>m_next = SENTINEL, m_eh = SENTINEL, promise = p, m_state = None,
     m_mem_tmp = None, trace = []\<rparr>"

definition done_coro :: "('p, 's, 'v, 'x) coroutine \<Rightarrow> bool" where
  "done_coro c = (m_next c = SENTINEL)"

definition handle :: "('p, 's, 'v, 'x) coroutine \<Rightarrow> coro_state" where
  "handle c = \<lparr>m_next = m_next c, m_eh = m_eh c\<rparr>"

definition emit :: "('v, 'x) event list \<Rightarrow> ('p, 's, 'v, 'x) coroutine \<Rightarrow> ('p, 's, 'v, 'x) coroutine" where
  "emit es c = c\<lparr>trace := trace c @ es\<rparr>"

definition call_hook ::
  "('v, 'x) event \<Rightarrow> ('p \<Rightarrow> 'x option \<times> 'p) \<Rightarrow> ('p, 's, 'v, 'x) coroutine
     \<Rightarrow> 'x option \<times> ('p, 's, 'v, 'x) coroutine" where
  "call_hook ev h c = (case h (promise c) of (xo, p') \<Rightarrow> (xo, emit [ev] (c\<lparr>promise := p'\<rparr>)))"

text \<open>
  \<^verbatim>\<open>~finalizer() { m_state->~State(); m_promise->finalize(); }\<close>
\<close>

definition finalizer ::
  "('p, 'v, 'x) promise_hooks \<Rightarrow> ('p, 's, 'v, 'x) coroutine \<Rightarrow> ('p, 's, 'v, 'x) coroutine" where
  "finalizer P c = emit [EvFinalize] (c\<lparr>m_state := None, promise := finalize P (promise c)\<rparr>)"

text \<open>
  \<^verbatim>\<open>suspend(p, coro)\<close>: a \<^verbatim>\<open>bool\<close> result of \<^verbatim>\<open>await_suspend\<close> is returned, after a
  \<^verbatim>\<open>void\<close> one the function returns \<^verbatim>\<open>true\<close>.
\<close>

definition suspend :: "'v awaiter \<Rightarrow> coro_state \<Rightarrow> bool" where
  "suspend p coro = (case await_suspend p coro of RetBool b \<Rightarrow> b | RetVoid \<Rightarrow> True)"

text \<open>
  \<^verbatim>\<open>try_suspend(p_, ctx, ip)\<close>:
  \<^verbatim>\<open>if (p->await_ready()) return false; ctx->m_next = ip; return suspend(p, handle);\<close>
\<close>

definition try_suspend ::
  "'v awaiter \<Rightarrow> ('p, 's, 'v, 'x) coroutine \<Rightarrow> pc \<Rightarrow> bool \<times> ('p, 's, 'v, 'x) coroutine" where
  "try_suspend p ctx ip =
     (if await_ready p then (False, emit [EvAwaitReady] ctx)
      else (let ctx' = (emit [EvAwaitReady] ctx)\<lparr>m_next := ip\<rparr>
            in (suspend p (handle ctx'), emit [EvAwaitSuspend] ctx')))"

section \<open>Return\<close>

text \<open>
  Fatal ends of a run: a failed \<^verbatim>\<open>assert\<close>, undefined behaviour (reading the exception
  carrier or the scratch buffer or the closure while no object lives there), and a
  call that has no viable overload (which the compiler rejects).
\<close>

datatype fatal = AssertFailed | EmptyCarrier | BadScratch | DeadState | NoOverload

text \<open>
  The argument of \<^verbatim>\<open>COZ_RETURN(...)\<close>: empty, an expression of type \<^verbatim>\<open>void\<close>, or an
  expression with a value.  \<^verbatim>\<open>z_COZ_DEVOID\<close> turns a \<^verbatim>\<open>void\<close> expression into
  \<^verbatim>\<open>void_t{}\<close> and passes a value on.
\<close>

datatype 'v ret_arg = NoArg | VoidExpr | Value 'v

definition implicit_return ::
  "('p, 'v, 'x) promise_hooks \<Rightarrow> ('p, 's, 'v, 'x) coroutine
     \<Rightarrow> fatal + 'x option \<times> ('p, 's, 'v, 'x) coroutine" where
  "implicit_return P c =
     (case return_void P of
        Some h \<Rightarrow> Inr (call_hook EvReturnVoid h c)
      | None \<Rightarrow> Inl AssertFailed)"

definition explicit_return ::
  "('p, 'v, 'x) promise_hooks \<Rightarrow> 'v option \<Rightarrow> ('p, 's, 'v, 'x) coroutine
     \<Rightarrow> fatal + 'x option \<times> ('p, 's, 'v, 'x) coroutine" where
  "explicit_return P a c =
     (case a of
        None \<Rightarrow> (case return_void P of
                   Some h \<Rightarrow> Inr (call_hook EvReturnVoid h c)
                 | None \<Rightarrow> Inl NoOverload)
      | Some v \<Rightarrow> (case return_value P of
                     Some h \<Rightarrow> Inr (call_hook (EvReturnValue v) (h v) c)
                   | None \<Rightarrow> Inl NoOverload))"

definition z_COZ_RETURN ::
  "('p, 'v, 'x) promise_hooks \<Rightarrow> 'v ret_arg \<Rightarrow> ('p, 's, 'v, 'x) coroutine
     \<Rightarrow> fatal + 'x option \<times> ('p, 's, 'v, 'x) coroutine" where
  "z_COZ_RETURN P t c =
     (case t of
        NoArg \<Rightarrow> (case return_void P of
                    Some h \<Rightarrow> Inr (call_hook EvReturnVoid h c)
                  | None \<Rightarrow> Inl NoOverload)
      | VoidExpr \<Rightarrow> explicit_return P None c
      | Value v \<Rightarrow> explicit_return P (Some v) c)"

section \<open>Coroutine bodies\<close>

text \<open>
  The body written between \<^verbatim>\<open>COZ_BEG\<close> and \<^verbatim>\<open>COZ_END\<close>: plain C++ statements over the
  closure \<open>'s\<close> (a statement that throws returns the exception), sequencing,
  \<^verbatim>\<open>if\<close>/\<^verbatim>\<open>else\<close>, \<^verbatim>\<open>for (; cond; step)\<close>, and the macros.  \<^verbatim>\<open>COZ_YIELD\<close> and the
  await macros carry \<^verbatim>\<open>size_align_of\<close> of the temporary they register.
  \<^verbatim>\<open>COZ_AWAIT_APPLY f e\<close> is \<^verbatim>\<open>z_COZ_AWAIT_STMT\<close>: \<open>e\<close> gives the awaiter (after
  \<^verbatim>\<open>await_transform\<close>, if the promise has one), \<open>f\<close> consumes \<^verbatim>\<open>await_resume()\<close>.

  A handler of \<^verbatim>\<open>COZ_CATCH\<close> is a C++ \<^verbatim>\<open>catch\<close> clause.  C++ forbids a \<^verbatim>\<open>case\<close> label
  inside a handler, so no macro that introduces one can be used there: a handler is
  plain code that completes, throws, or leaves through \<^verbatim>\<open>COZ_RETURN\<close>.
\<close>

datatype ('s, 'v, 'x) plain_result = Done 's | Threw 'x 's | Ret "'v ret_arg" 's

type_synonym ('s, 'v, 'x) clause = "('x \<Rightarrow> bool) \<times> ('x \<Rightarrow> 's \<Rightarrow> ('s, 'v, 'x) plain_result)"

datatype ('s, 'v, 'x) stmt =
    Exec "'s \<Rightarrow> 'x option \<times> 's"
  | Seq "('s, 'v, 'x) stmt" "('s, 'v, 'x) stmt"
  | Cond "'s \<Rightarrow> bool" "('s, 'v, 'x) stmt" "('s, 'v, 'x) stmt"
  | For "'s \<Rightarrow> bool" "'s \<Rightarrow> 's" "('s, 'v, 'x) stmt"
  | COZ_YIELD size_align "'s \<Rightarrow> 'v"
  | COZ_YIELD_LITE "'s \<Rightarrow> 'v"
  | COZ_AWAIT_APPLY size_align "'v \<Rightarrow> 's \<Rightarrow> 'x option \<times> 's" "'s \<Rightarrow> 'v awaiter"
  | COZ_RETURN "'s \<Rightarrow> 'v ret_arg"
  | COZ_TRY "('s, 'v, 'x) stmt" "('s, 'v, 'x) clause list"

text \<open>
  How often a statement expands \<^verbatim>\<open>z_COZ_NEW_IP\<close> (\<^verbatim>\<open>__COUNTER__ - _coz_start\<close>): a
  suspension point takes one ordinal for its resume label \<^verbatim>\<open>_coz_ip\<close> and the next for
  its cleanup label \<^verbatim>\<open>z_COZ_NEW_EH\<close>; \<^verbatim>\<open>COZ_TRY\<close> takes one for \<^verbatim>\<open>_coz_curr_eh\<close>.
\<close>

fun counters :: "('s, 'v, 'x) stmt \<Rightarrow> nat" where
  "counters (Exec f) = 0"
| "counters (Seq a b) = counters a + counters b"
| "counters (Cond cnd a b) = counters a + counters b"
| "counters (For cnd stp b) = counters b"
| "counters (COZ_YIELD sa e) = 2"
| "counters (COZ_YIELD_LITE e) = 2"
| "counters (COZ_AWAIT_APPLY sa f e) = 2"
| "counters (COZ_RETURN t) = 0"
| "counters (COZ_TRY b hs) = 1 + counters b"

text \<open>The \<^verbatim>\<open>update_size_align\<close> calls of a body, in source order.\<close>

fun registrations :: "('s, 'v, 'x) stmt \<Rightarrow> size_align list" where
  "registrations (Exec f) = []"
| "registrations (Seq a b) = registrations a @ registrations b"
| "registrations (Cond cnd a b) = registrations a @ registrations b"
| "registrations (For cnd stp b) = registrations b"
| "registrations (COZ_YIELD sa e) = [sa]"
| "registrations (COZ_YIELD_LITE e) = []"
| "registrations (COZ_AWAIT_APPLY sa f e) = [sa]"
| "registrations (COZ_RETURN t) = []"
| "registrations (COZ_TRY b hs) = registrations b"

text \<open>
  Control either runs forward, or the \<^verbatim>\<open>switch (_coz_ctx->m_next)\<close> is looking for the
  \<^verbatim>\<open>case\<close> label to jump to; the exception carrier \<^verbatim>\<open>_coz_ex\<close> is read only at a
  \<^verbatim>\<open>COZ_CATCH\<close> label.
\<close>

datatype 'x mode = Run | Seek pc "'x option"

text \<open>
  How a statement ends: control continues after it, it holds no \<^verbatim>\<open>case\<close> for the
  label sought, \<^verbatim>\<open>goto _coz_suspend\<close>, \<^verbatim>\<open>goto _coz_finalize\<close>, an exception leaves it,
  a fatal end, or the fuel for loop iterations is used up.
\<close>

datatype ('c, 'x) outcome =
    Continue 'c
  | NoCase
  | GotoSuspend 'c
  | GotoFinalize 'c
  | Thrown 'x 'c
  | Fatal fatal
  | OutOfFuel

definition run_plain ::
  "('s \<Rightarrow> 'x option \<times> 's) \<Rightarrow> ('p, 's, 'v, 'x) coroutine \<Rightarrow> (('p, 's, 'v, 'x) coroutine, 'x) outcome" where
  "run_plain f c =
     (case m_state c of
        None \<Rightarrow> Fatal DeadState
      | Some s \<Rightarrow>
          (case f s of
             (None, s') \<Rightarrow> Continue (emit [EvExec] (c\<lparr>m_state := Some s'\<rparr>))
           | (Some x, s') \<Rightarrow> Thrown x (emit [EvExec] (c\<lparr>m_state := Some s'\<rparr>))))"

definition for_step :: "('s \<Rightarrow> 's) \<Rightarrow> ('p, 's, 'v, 'x) coroutine \<Rightarrow> ('p, 's, 'v, 'x) coroutine" where
  "for_step stp c = emit [EvExec] (c\<lparr>m_state := map_option stp (m_state c)\<rparr>)"

text \<open>
  \<^verbatim>\<open>COZ_RETURN(...)\<close>:
  \<^verbatim>\<open>_coz_ctx->m_next = SENTINEL; z_COZ_RETURN((__VA_ARGS__)); goto _coz_finalize;\<close>
\<close>

definition coz_return ::
  "('p, 'v, 'x) promise_hooks \<Rightarrow> 'v ret_arg \<Rightarrow> ('p, 's, 'v, 'x) coroutine
     \<Rightarrow> (('p, 's, 'v, 'x) coroutine, 'x) outcome" where
  "coz_return P t c =
     (case z_COZ_RETURN P t (c\<lparr>m_next := SENTINEL\<rparr>) of
        Inl f \<Rightarrow> Fatal f
      | Inr (None, c') \<Rightarrow> GotoFinalize c'
      | Inr (Some x, c') \<Rightarrow> Thrown x c')"

text \<open>
  \<^verbatim>\<open>COZ_YIELD(expr)\<close>: the temporary is built in the scratch buffer and handed to
  \<^verbatim>\<open>yield_value\<close>, \<^verbatim>\<open>m_next = _coz_ip\<close>, \<^verbatim>\<open>goto _coz_suspend\<close>.  At \<^verbatim>\<open>case _coz_ip\<close> the
  temporary is destroyed and control leaves the macro; at the cleanup label it is
  destroyed and control goes to \<^verbatim>\<open>_coz_finalize\<close>.
\<close>

definition yield_suspend ::
  "('p, 'v, 'x) promise_hooks \<Rightarrow> pc \<Rightarrow> ('s \<Rightarrow> 'v) \<Rightarrow> ('p, 's, 'v, 'x) coroutine
     \<Rightarrow> (('p, 's, 'v, 'x) coroutine, 'x) outcome" where
  "yield_suspend P ip e c =
     (case m_state c of
        None \<Rightarrow> Fatal DeadState
      | Some s \<Rightarrow>
          (case call_hook (EvYieldValue (e s)) (yield_value P (e s))
                  (c\<lparr>m_mem_tmp := Some (TmpValue (e s))\<rparr>) of
             (Some x, c') \<Rightarrow> Thrown x c'
           | (None, c') \<Rightarrow> GotoSuspend (c'\<lparr>m_next := ip\<rparr>)))"

definition yield_resume :: "('p, 's, 'v, 'x) coroutine \<Rightarrow> (('p, 's, 'v, 'x) coroutine, 'x) outcome" where
  "yield_resume c =
     (case m_mem_tmp c of
        Some (TmpValue v) \<Rightarrow> Continue (c\<lparr>m_mem_tmp := None\<rparr>)
      | _ \<Rightarrow> Fatal BadScratch)"

definition yield_cleanup :: "('p, 's, 'v, 'x) coroutine \<Rightarrow> (('p, 's, 'v, 'x) coroutine, 'x) outcome" where
  "yield_cleanup c =
     (case m_mem_tmp c of
        Some (TmpValue v) \<Rightarrow> GotoFinalize (c\<lparr>m_mem_tmp := None\<rparr>)
      | _ \<Rightarrow> Fatal BadScratch)"

text \<open>
  \<^verbatim>\<open>COZ_YIELD_LITE(expr)\<close>: no temporary; \<^verbatim>\<open>yield_value(expr)\<close>, \<^verbatim>\<open>m_next = _coz_ip\<close>,
  \<^verbatim>\<open>goto _coz_suspend\<close>.
\<close>

definition yield_lite_suspend ::
  "('p, 'v, 'x) promise_hooks \<Rightarrow> pc \<Rightarrow> ('s \<Rightarrow> 'v) \<Rightarrow> ('p, 's, 'v, 'x) coroutine
     \<Rightarrow> (('p, 's, 'v, 'x) coroutine, 'x) outcome" where
  "yield_lite_suspend P ip e c =
     (case m_state c of
        None \<Rightarrow> Fatal DeadState
      | Some s \<Rightarrow>
          (case call_hook (EvYieldValue (e s)) (yield_value P (e s)) c of
             (Some x, c') \<Rightarrow> Thrown x c'
           | (None, c') \<Rightarrow> GotoSuspend (c'\<lparr>m_next := ip\<rparr>)))"

text \<open>
  \<^verbatim>\<open>z_COZ_AWAIT_SUSPEND\<close> and the statement after it.  \<open>await_case\<close> is the code at
  \<^verbatim>\<open>case _coz_ip\<close>: \<^verbatim>\<open>ret(auto_reset{tmp}->await_resume())\<close>, the \<^verbatim>\<open>auto_reset\<close> destroying
  the awaiter whether or not \<open>ret\<close> throws.  It is reached by the switch, or by falling
  through when \<^verbatim>\<open>try_suspend\<close> returns false.
\<close>

definition await_case ::
  "('v \<Rightarrow> 's \<Rightarrow> 'x option \<times> 's) \<Rightarrow> ('p, 's, 'v, 'x) coroutine
     \<Rightarrow> (('p, 's, 'v, 'x) coroutine, 'x) outcome" where
  "await_case f c =
     (case m_mem_tmp c of
        Some (TmpAwaiter a) \<Rightarrow>
          (case m_state c of
             None \<Rightarrow> Fatal DeadState
           | Some s \<Rightarrow>
               (case f (await_resume a) s of
                  (None, s') \<Rightarrow>
                    Continue (emit [EvAwaitResume, EvExec] (c\<lparr>m_state := Some s', m_mem_tmp := None\<rparr>))
                | (Some x, s') \<Rightarrow>
                    Thrown x (emit [EvAwaitResume, EvExec] (c\<lparr>m_state := Some s', m_mem_tmp := None\<rparr>))))
      | _ \<Rightarrow> Fatal BadScratch)"

definition await_suspend_or_continue ::
  "pc \<Rightarrow> ('v \<Rightarrow> 's \<Rightarrow> 'x option \<times> 's) \<Rightarrow> ('s \<Rightarrow> 'v awaiter) \<Rightarrow> ('p, 's, 'v, 'x) coroutine
     \<Rightarrow> (('p, 's, 'v, 'x) coroutine, 'x) outcome" where
  "await_suspend_or_continue ip f e c =
     (case m_state c of
        None \<Rightarrow> Fatal DeadState
      | Some s \<Rightarrow>
          (case try_suspend (e s) (c\<lparr>m_mem_tmp := Some (TmpAwaiter (e s))\<rparr>) ip of
             (True, c') \<Rightarrow> GotoSuspend c'
           | (False, c') \<Rightarrow> await_case f c'))"

definition await_cleanup :: "('p, 's, 'v, 'x) coroutine \<Rightarrow> (('p, 's, 'v, 'x) coroutine, 'x) outcome" where
  "await_cleanup c =
     (case m_mem_tmp c of
        Some (TmpAwaiter a) \<Rightarrow> GotoFinalize (c\<lparr>m_mem_tmp := None\<rparr>)
      | _ \<Rightarrow> Fatal BadScratch)"

text \<open>
  \<^verbatim>\<open>COZ_CATCH\<close>, entered at \<^verbatim>\<open>case _coz_curr_eh\<close>:
  \<^verbatim>\<open>try { m_eh = _coz_prev_eh; std::rethrow_exception(_coz_ex.release()); } catch ...\<close>
  The first clause that matches runs; without one the exception leaves the statement.
\<close>

definition run_handler ::
  "('p, 'v, 'x) promise_hooks \<Rightarrow> 'x \<Rightarrow> ('s \<Rightarrow> ('s, 'v, 'x) plain_result) \<Rightarrow> ('p, 's, 'v, 'x) coroutine
     \<Rightarrow> (('p, 's, 'v, 'x) coroutine, 'x) outcome" where
  "run_handler P x h c =
     (case m_state c of
        None \<Rightarrow> Fatal DeadState
      | Some s \<Rightarrow>
          (case h s of
             Done s' \<Rightarrow> Continue (emit [EvHandler x] (c\<lparr>m_state := Some s'\<rparr>))
           | Threw x' s' \<Rightarrow> Thrown x' (emit [EvHandler x] (c\<lparr>m_state := Some s'\<rparr>))
           | Ret t s' \<Rightarrow> coz_return P t (emit [EvHandler x] (c\<lparr>m_state := Some s'\<rparr>))))"

fun catch_clauses ::
  "('p, 'v, 'x) promise_hooks \<Rightarrow> ('s, 'v, 'x) clause list \<Rightarrow> 'x \<Rightarrow> ('p, 's, 'v, 'x) coroutine
     \<Rightarrow> (('p, 's, 'v, 'x) coroutine, 'x) outcome" where
  "catch_clauses P [] x c = Thrown x c"
| "catch_clauses P ((m, h) # hs) x c =
     (if m x then run_handler P x (h x) c else catch_clauses P hs x c)"

definition coz_catch ::
  "('p, 'v, 'x) promise_hooks \<Rightarrow> pc \<Rightarrow> ('s, 'v, 'x) clause list \<Rightarrow> 'x option
     \<Rightarrow> ('p, 's, 'v, 'x) coroutine \<Rightarrow> (('p, 's, 'v, 'x) coroutine, 'x) outcome" where
  "coz_catch P prev_eh hs ex c =
     (case ex of
        None \<Rightarrow> Fatal EmptyCarrier
      | Some x \<Rightarrow> catch_clauses P hs x (c\<lparr>m_eh := prev_eh\<rparr>))"

text \<open>
  Executing a statement.  \<open>n\<close> is the ordinal the next \<^verbatim>\<open>z_COZ_NEW_IP\<close> expands to,
  \<open>ceh\<close> the enumerator \<^verbatim>\<open>_coz_curr_eh\<close> in scope, \<open>k\<close> bounds the iterations of each
  loop.  In \<open>Seek\<close> mode nothing runs until the label is reached, as in a \<^verbatim>\<open>switch\<close>.
  \<^verbatim>\<open>COZ_TRY\<close> is \<^verbatim>\<open>if (...; m_eh = _coz_curr_eh, true) body else case _coz_curr_eh: handler\<close>.
\<close>

function exec ::
  "('p, 'v, 'x) promise_hooks \<Rightarrow> nat \<Rightarrow> nat \<Rightarrow> pc \<Rightarrow> ('s, 'v, 'x) stmt \<Rightarrow> 'x mode
     \<Rightarrow> ('p, 's, 'v, 'x) coroutine \<Rightarrow> (('p, 's, 'v, 'x) coroutine, 'x) outcome" where
  "exec P k n ceh (Exec f) Run c = run_plain f c"
| "exec P k n ceh (Exec f) (Seek l ex) c = NoCase"
| "exec P k n ceh (Seq a b) md c =
     (case exec P k n ceh a md c of
        Continue c' \<Rightarrow> exec P k (n + counters a) ceh b Run c'
      | NoCase \<Rightarrow> exec P k (n + counters a) ceh b md c
      | r \<Rightarrow> r)"
| "exec P k n ceh (Cond cnd a b) Run c =
     (case m_state c of
        None \<Rightarrow> Fatal DeadState
      | Some s \<Rightarrow>
          if cnd s then exec P k n ceh a Run c
          else exec P k (n + counters a) ceh b Run c)"
| "exec P k n ceh (Cond cnd a b) (Seek l ex) c =
     (case exec P k n ceh a (Seek l ex) c of
        NoCase \<Rightarrow> exec P k (n + counters a) ceh b (Seek l ex) c
      | r \<Rightarrow> r)"
| "exec P 0 n ceh (For cnd stp b) Run c =
     (case m_state c of
        None \<Rightarrow> Fatal DeadState
      | Some s \<Rightarrow> if cnd s then OutOfFuel else Continue c)"
| "exec P (Suc k) n ceh (For cnd stp b) Run c =
     (case m_state c of
        None \<Rightarrow> Fatal DeadState
      | Some s \<Rightarrow>
          if cnd s then
            (case exec P (Suc k) n ceh b Run c of
               Continue c' \<Rightarrow> exec P k n ceh (For cnd stp b) Run (for_step stp c')
             | r \<Rightarrow> r)
          else Continue c)"
| "exec P 0 n ceh (For cnd stp b) (Seek l ex) c =
     (case exec P 0 n ceh b (Seek l ex) c of
        Continue c' \<Rightarrow>
          (case m_state (for_step stp c') of
             None \<Rightarrow> Fatal DeadState
           | Some s \<Rightarrow> if cnd s then OutOfFuel else Continue (for_step stp c'))
      | r \<Rightarrow> r)"
| "exec P (Suc k) n ceh (For cnd stp b) (Seek l ex) c =
     (case exec P (Suc k) n ceh b (Seek l ex) c of
        Continue c' \<Rightarrow> exec P k n ceh (For cnd stp b) Run (for_step stp c')
      | r \<Rightarrow> r)"
| "exec P k n ceh (COZ_YIELD sa e) Run c = yield_suspend P (of_nat n) e c"
| "exec P k n ceh (COZ_YIELD sa e) (Seek l ex) c =
     (if l = of_nat n then yield_resume c
      else if l = of_nat (n + 1) then yield_cleanup c
      else NoCase)"
| "exec P k n ceh (COZ_YIELD_LITE e) Run c = yield_lite_suspend P (of_nat n) e c"
| "exec P k n ceh (COZ_YIELD_LITE e) (Seek l ex) c =
     (if l = of_nat n then Continue c
      else if l = of_nat (n + 1) then GotoFinalize c
      else NoCase)"
| "exec P k n ceh (COZ_AWAIT_APPLY sa f e) Run c = await_suspend_or_continue (of_nat n) f e c"
| "exec P k n ceh (COZ_AWAIT_APPLY sa f e) (Seek l ex) c =
     (if l = of_nat n then await_case f c
      else if l = of_nat (n + 1) then await_cleanup c
      else NoCase)"
| "exec P k n ceh (COZ_RETURN t) Run c =
     (case m_state c of
        None \<Rightarrow> Fatal DeadState
      | Some s \<Rightarrow> coz_return P (t s) c)"
| "exec P k n ceh (COZ_RETURN t) (Seek l ex) c = NoCase"
| "exec P k n ceh (COZ_TRY b hs) Run c =
     exec P k (n + 1) (of_nat n) b Run (c\<lparr>m_eh := of_nat n\<rparr>)"
| "exec P k n ceh (COZ_TRY b hs) (Seek l ex) c =
     (if l = of_nat n then coz_catch P ceh hs ex c
      else exec P k (n + 1) (of_nat n) b (Seek l ex) c)"
  by pat_completeness auto
termination
  by (relation "measures [\<lambda>(P, k, n, ceh, s, md, c). k, \<lambda>(P, k, n, ceh, s, md, c). size s]") auto

section \<open>The engine: \<^verbatim>\<open>operator()\<close> of \<^verbatim>\<open>_coz_state\<close>, from \<^verbatim>\<open>COZ_BEG\<close> to \<^verbatim>\<open>COZ_END\<close>\<close>

text \<open>
  What a call of \<^verbatim>\<open>start\<close>, \<^verbatim>\<open>resume\<close> or \<^verbatim>\<open>destroy\<close> gives its caller.  It returns
  in three ways, which the caller can tell apart only through the coroutine: after
  \<^verbatim>\<open>goto _coz_suspend\<close>, after a \<^verbatim>\<open>finalizer\<close> has run, or because the \<^verbatim>\<open>switch\<close> had no
  \<^verbatim>\<open>case\<close> for \<^verbatim>\<open>m_next\<close> (it has no \<^verbatim>\<open>default\<close>).  Otherwise an exception leaves it, the
  program aborts, or the fuel is used up before it ends.
\<close>

datatype ('c, 'x) result =
    Suspended 'c
  | Finished 'c
  | Unmatched 'c
  | Raised 'x 'c
  | Aborted fatal
  | Diverged

text \<open>
  The tail of the \<^verbatim>\<open>catch (...)\<close> clause:
  \<^verbatim>\<open>finalizer fin{this, _coz_ctx}; _coz_ctx->unhandled_exception();\<close>
  \<open>fin\<close> is destroyed when the block is left, by return or by the exception the hook
  throws.
\<close>

definition unhandled ::
  "('p, 'v, 'x) promise_hooks \<Rightarrow> 'x \<Rightarrow> ('p, 's, 'v, 'x) coroutine
     \<Rightarrow> (('p, 's, 'v, 'x) coroutine, 'x) result" where
  "unhandled P x c =
     (case call_hook (EvUnhandled x) (unhandled_exception P x) c of
        (None, c') \<Rightarrow> Finished (finalizer P c')
      | (Some x', c') \<Rightarrow> Raised x' (finalizer P c'))"

text \<open>
  \<^verbatim>\<open>catch (...) { m_next = m_eh; if (m_next != SENTINEL) { _coz_ex.emplace(...); goto _coz_retry; } ... }\<close>
  \<open>Inr\<close> asks for the retry with the exception in the carrier.
\<close>

definition catch_all ::
  "('p, 'v, 'x) promise_hooks \<Rightarrow> 'x \<Rightarrow> ('p, 's, 'v, 'x) coroutine
     \<Rightarrow> (('p, 's, 'v, 'x) coroutine, 'x) result + 'x \<times> ('p, 's, 'v, 'x) coroutine" where
  "catch_all P x c =
     (let c' = c\<lparr>m_next := m_eh c\<rparr>
      in if m_next c' \<noteq> SENTINEL then Inr (x, c') else Inl (unhandled P x c'))"

text \<open>
  \<^verbatim>\<open>COZ_END\<close> when control reaches the end of the body:
  \<^verbatim>\<open>m_next = SENTINEL; implicit_return(_coz_ctx); _coz_finalize: finalizer{this, _coz_ctx};\<close>
\<close>

definition COZ_END ::
  "('p, 'v, 'x) promise_hooks \<Rightarrow> ('p, 's, 'v, 'x) coroutine
     \<Rightarrow> (('p, 's, 'v, 'x) coroutine, 'x) result + 'x \<times> ('p, 's, 'v, 'x) coroutine" where
  "COZ_END P c =
     (case implicit_return P (c\<lparr>m_next := SENTINEL\<rparr>) of
        Inl f \<Rightarrow> Inl (Aborted f)
      | Inr (None, c') \<Rightarrow> Inl (Finished (finalizer P c'))
      | Inr (Some x, c') \<Rightarrow> catch_all P x c')"

text \<open>
  \<^verbatim>\<open>switch (_coz_ctx->m_next) { case 0: body ... }\<close>: the first ordinal after
  \<^verbatim>\<open>_coz_start\<close> is 1, and \<^verbatim>\<open>_coz_curr_eh\<close> is \<^verbatim>\<open>SENTINEL\<close> outside every \<^verbatim>\<open>COZ_TRY\<close>.
\<close>

definition dispatch ::
  "('p, 'v, 'x) promise_hooks \<Rightarrow> nat \<Rightarrow> ('s, 'v, 'x) stmt \<Rightarrow> 'x option
     \<Rightarrow> ('p, 's, 'v, 'x) coroutine \<Rightarrow> (('p, 's, 'v, 'x) coroutine, 'x) outcome" where
  "dispatch P k body ex c =
     (if m_next c = 0 then exec P k 1 SENTINEL body Run c
      else exec P k 1 SENTINEL body (Seek (m_next c) ex) c)"

definition engine_pass ::
  "('p, 'v, 'x) promise_hooks \<Rightarrow> nat \<Rightarrow> ('s, 'v, 'x) stmt \<Rightarrow> 'x option
     \<Rightarrow> ('p, 's, 'v, 'x) coroutine
     \<Rightarrow> (('p, 's, 'v, 'x) coroutine, 'x) result + 'x \<times> ('p, 's, 'v, 'x) coroutine" where
  "engine_pass P k body ex c =
     (case dispatch P k body ex c of
        Continue c' \<Rightarrow> COZ_END P c'
      | NoCase \<Rightarrow> Inl (Unmatched c)
      | GotoSuspend c' \<Rightarrow> Inl (Suspended c')
      | GotoFinalize c' \<Rightarrow> Inl (Finished (finalizer P c'))
      | Thrown x c' \<Rightarrow> catch_all P x c'
      | Fatal f \<Rightarrow> Inl (Aborted f)
      | OutOfFuel \<Rightarrow> Inl Diverged)"

text \<open>The \<^verbatim>\<open>_coz_retry\<close> loop; each retry takes one unit of fuel.\<close>

fun coz_operator ::
  "('p, 'v, 'x) promise_hooks \<Rightarrow> nat \<Rightarrow> ('s, 'v, 'x) stmt \<Rightarrow> 'x option
     \<Rightarrow> ('p, 's, 'v, 'x) coroutine \<Rightarrow> (('p, 's, 'v, 'x) coroutine, 'x) result" where
  "coz_operator P 0 body ex c =
     (case engine_pass P 0 body ex c of Inl r \<Rightarrow> r | Inr (x, c') \<Rightarrow> Diverged)"
| "coz_operator P (Suc k) body ex c =
     (case engine_pass P (Suc k) body ex c of
        Inl r \<Rightarrow> r
      | Inr (x, c') \<Rightarrow> coz_operator P k body (Some x) c')"

text \<open>\<^verbatim>\<open>body::invoke\<close>: a fresh \<^verbatim>\<open>operator()\<close> call, its exception carrier empty.\<close>

definition invoke ::
  "('p, 'v, 'x) promise_hooks \<Rightarrow> nat \<Rightarrow> ('s, 'v, 'x) stmt \<Rightarrow> ('p, 's, 'v, 'x) coroutine
     \<Rightarrow> (('p, 's, 'v, 'x) coroutine, 'x) result" where
  "invoke P k body c = coz_operator P k body None c"

section \<open>\<^verbatim>\<open>coz::coroutine\<close>: start, resume, destroy\<close>

text \<open>
  \<^verbatim>\<open>start\<close>: \<^verbatim>\<open>m_state.emplace(std::move(params)); m_next = 0; m_body.invoke(this);\<close>
  (\<open>s0\<close> is the \<^verbatim>\<open>State\<close> object built from the parameters.)
  \<^verbatim>\<open>destroy\<close>: \<^verbatim>\<open>assert(m_next != SENTINEL); ++m_next; m_body.invoke(this);\<close>
\<close>

definition start ::
  "('p, 'v, 'x) promise_hooks \<Rightarrow> nat \<Rightarrow> ('s, 'v, 'x) stmt \<Rightarrow> 's \<Rightarrow> ('p, 's, 'v, 'x) coroutine
     \<Rightarrow> (('p, 's, 'v, 'x) coroutine, 'x) result" where
  "start P k body s0 c = invoke P k body (c\<lparr>m_state := Some s0, m_next := 0\<rparr>)"

definition resume ::
  "('p, 'v, 'x) promise_hooks \<Rightarrow> nat \<Rightarrow> ('s, 'v, 'x) stmt \<Rightarrow> ('p, 's, 'v, 'x) coroutine
     \<Rightarrow> (('p, 's, 'v, 'x) coroutine, 'x) result" where
  "resume P k body c = invoke P k body c"

definition destroy ::
  "('p, 'v, 'x) promise_hooks \<Rightarrow> nat \<Rightarrow> ('s, 'v, 'x) stmt \<Rightarrow> ('p, 's, 'v, 'x) coroutine
     \<Rightarrow> (('p, 's, 'v, 'x) coroutine, 'x) result" where
  "destroy P k body c =
     (if m_next c = SENTINEL then Aborted AssertFailed
      else invoke P k body (c\<lparr>m_next := m_next c + 1\<rparr>))"

text \<open>
  The \<^verbatim>\<open>body\<close> member of a coroutine: the primary template holds
  \<^verbatim>\<open>char m_mem_tmp[mem.size]\<close> aligned to \<^verbatim>\<open>mem.align\<close>; the specialisation for
  \<^verbatim>\<open>size_align{}\<close> has no such member and passes \<^verbatim>\<open>nullptr\<close>.
\<close>

datatype body_layout = WithScratch nat nat | NoScratch

definition body_of :: "size_align \<Rightarrow> body_layout" where
  "body_of mem = (if mem = size_align_zero then NoScratch else WithScratch (size_sa mem) (align_sa mem))"

definition scratch_bytes :: "body_layout \<Rightarrow> nat" where
  "scratch_bytes b = (case b of NoScratch \<Rightarrow> 0 | WithScratch sz al \<Rightarrow> sz)"

definition returned :: "('c, 'x) result \<Rightarrow> 'c option" where
  "returned r = (case r of Suspended c \<Rightarrow> Some c | Finished c \<Rightarrow> Some c | Unmatched c \<Rightarrow> Some c
                 | _ \<Rightarrow> None)"

section \<open>The generator example (example/generator.hpp, example/generator_demo.cpp)\<close>

text \<open>
  The promise of \<^verbatim>\<open>demo::generator<T>\<close> holds \<^verbatim>\<open>std::optional<T> m_data\<close>.  The two
  versions of the header differ in \<^verbatim>\<open>finalize\<close> (empty in \<^verbatim>\<open>generator_t<T>::promise_type\<close>,
  \<^verbatim>\<open>m_data.reset()\<close> in \<^verbatim>\<open>generator_promise<T>\<close>) and in where the coroutine is
  started.  \<^verbatim>\<open>unhandled_exception() { throw; }\<close> rethrows.
\<close>

record 'v gen_promise =
  m_data :: "'v option"

definition promise_type :: "('v gen_promise, 'v, 'x) promise_hooks" where
  "promise_type = \<lparr>finalize = (\<lambda>p. p),
     yield_value = (\<lambda>u p. (None, p\<lparr>m_data := Some u\<rparr>)),
     return_void = Some (\<lambda>p. (None, p)),
     return_value = None,
     unhandled_exception = (\<lambda>x p. (Some x, p))\<rparr>"

definition generator_promise :: "('v gen_promise, 'v, 'x) promise_hooks" where
  "generator_promise = \<lparr>finalize = (\<lambda>p. \<lparr>m_data = None\<rparr>),
     yield_value = (\<lambda>u p. (None, p\<lparr>m_data := Some u\<rparr>)),
     return_void = Some (\<lambda>p. (None, p)),
     return_value = None,
     unhandled_exception = (\<lambda>x p. (Some x, p))\<rparr>"

text \<open>
  What running a piece of client code gives: its value, an exception that escapes, a
  fatal end, or the fuel used up.
\<close>

datatype ('a, 'x) run = Completed 'a | Escaped 'x | Crashed fatal | Timeout

definition lift_result :: "('c, 'x) result \<Rightarrow> ('c, 'x) run" where
  "lift_result r =
     (case r of
        Suspended c \<Rightarrow> Completed c
      | Finished c \<Rightarrow> Completed c
      | Unmatched c \<Rightarrow> Completed c
      | Raised x c \<Rightarrow> Escaped x
      | Aborted f \<Rightarrow> Crashed f
      | Diverged \<Rightarrow> Timeout)"

text \<open>
  \<^verbatim>\<open>generator_impl\<close> of example/generator.hpp: the constructor starts the coroutine,
  \<^verbatim>\<open>begin()\<close> wraps it in an iterator.
\<close>

definition generator_impl ::
  "nat \<Rightarrow> ('s, 'v, 'x) stmt \<Rightarrow> 's \<Rightarrow> (('v gen_promise, 's, 'v, 'x) coroutine, 'x) run" where
  "generator_impl k body params =
     lift_result (start promise_type k body params (coroutine_init \<lparr>m_data = None\<rparr>))"

text \<open>
  The other version of the header: the constructor keeps the parameters, and
  \<^verbatim>\<open>begin() { m_coro.done() ? m_coro.start(std::move(m_params)) : m_coro.resume(); ... }\<close>
\<close>

definition generator_impl2 :: "'s \<Rightarrow> ('v gen_promise, 's, 'v, 'x) coroutine \<times> 's" where
  "generator_impl2 params = (coroutine_init \<lparr>m_data = None\<rparr>, params)"

definition begin2 ::
  "nat \<Rightarrow> ('s, 'v, 'x) stmt \<Rightarrow> ('v gen_promise, 's, 'v, 'x) coroutine \<times> 's
     \<Rightarrow> (('v gen_promise, 's, 'v, 'x) coroutine, 'x) run" where
  "begin2 k body g =
     (case g of (m_coro, m_params) \<Rightarrow>
        lift_result (if done_coro m_coro then start generator_promise k body m_params m_coro
                     else resume generator_promise k body m_coro))"

text \<open>
  The range-based \<^verbatim>\<open>for\<close> of \<^verbatim>\<open>main\<close>: while \<^verbatim>\<open>!(it == end)\<close>, that is
  \<^verbatim>\<open>!m_coro->done()\<close>, read \<^verbatim>\<open>*it\<close> (\<^verbatim>\<open>*m_data\<close>, undefined on an empty \<^verbatim>\<open>optional\<close>), run
  the loop body (which prints the value; here it is appended to \<open>out\<close>), and \<^verbatim>\<open>++it\<close>
  (\<^verbatim>\<open>m_coro->resume()\<close>).  \<open>P\<close> is the promise of the header version in use.
\<close>

fun range_for ::
  "('v gen_promise, 'v, 'x) promise_hooks \<Rightarrow> nat \<Rightarrow> ('s, 'v, 'x) stmt
     \<Rightarrow> ('v gen_promise, 's, 'v, 'x) coroutine \<Rightarrow> 'v list
     \<Rightarrow> ('v list \<times> ('v gen_promise, 's, 'v, 'x) coroutine, 'x) run" where
  "range_for P 0 body c out = (if done_coro c then Completed (out, c) else Timeout)"
| "range_for P (Suc k) body c out =
     (if done_coro c then Completed (out, c)
      else (case m_data (promise c) of
              None \<Rightarrow> Crashed BadScratch
            | Some v \<Rightarrow>
                (case lift_result (resume P (Suc k) body c) of
                   Completed c' \<Rightarrow> range_for P k body c' (out @ [v])
                 | Escaped x \<Rightarrow> Escaped x
                 | Crashed f \<Rightarrow> Crashed f
                 | Timeout \<Rightarrow> Timeout)))"

text \<open>\<^verbatim>\<open>~generator_impl() { if (!m_coro.done()) m_coro.destroy(); }\<close>\<close>

definition generator_dtor ::
  "('v gen_promise, 'v, 'x) promise_hooks \<Rightarrow> nat \<Rightarrow> ('s, 'v, 'x) stmt
     \<Rightarrow> ('v gen_promise, 's, 'v, 'x) coroutine
     \<Rightarrow> (('v gen_promise, 's, 'v, 'x) coroutine, 'x) run" where
  "generator_dtor P k body c =
     (if \<not> done_coro c then lift_result (destroy P k body c) else Completed c)"

text \<open>
  \<^verbatim>\<open>for (const auto i : range(...)) ...\<close> with either header: build the generator,
  \<^verbatim>\<open>begin()\<close>, the loop, and the destructor of the temporary; the values seen by the
  loop body are the result.
\<close>

definition consume ::
  "nat \<Rightarrow> ('s, 'v, 'x) stmt \<Rightarrow> 's \<Rightarrow> ('v list, 'x) run" where
  "consume k body params =
     (case generator_impl k body params of
        Completed c \<Rightarrow>
          (case range_for promise_type k body c [] of
             Completed (out, c') \<Rightarrow>
               (case generator_dtor promise_type k body c' of
                  Completed c'' \<Rightarrow> Completed out
                | Escaped x \<Rightarrow> Escaped x
                | Crashed f \<Rightarrow> Crashed f
                | Timeout \<Rightarrow> Timeout)
           | Escaped x \<Rightarrow> Escaped x
           | Crashed f \<Rightarrow> Crashed f
           | Timeout \<Rightarrow> Timeout)
      | Escaped x \<Rightarrow> Escaped x
      | Crashed f \<Rightarrow> Crashed f
      | Timeout \<Rightarrow> Timeout)"

definition consume2 ::
  "nat \<Rightarrow> ('s, 'v, 'x) stmt \<Rightarrow> 's \<Rightarrow> ('v list, 'x) run" where
  "consume2 k body params =
     (case begin2 k body (generator_impl2 params) of
        Completed c \<Rightarrow>
          (case range_for generator_promise k body c [] of
             Completed (out, c') \<Rightarrow>
               (case generator_dtor generator_promise k body c' of
                  Completed c'' \<Rightarrow> Completed out
                | Escaped x \<Rightarrow> Escaped x
                | Crashed f \<Rightarrow> Crashed f
                | Timeout \<Rightarrow> Timeout)
           | Escaped x \<Rightarrow> Escaped x
           | Crashed f \<Rightarrow> Crashed f
           | Timeout \<Rightarrow> Timeout)
      | Escaped x \<Rightarrow> Escaped x
      | Crashed f \<Rightarrow> Crashed f
      | Timeout \<Rightarrow> Timeout)"

text \<open>
  \<^verbatim>\<open>auto range(int i, int e) COZ_BEG(demo::generator<int>, (i, e)) { for (; i != e; ++i) { COZ_YIELD(i); } } COZ_END\<close>
  The closure holds the two captured \<^verbatim>\<open>int\<close>s.  \<open>i\<close> is an lvalue, so the temporary of
  \<^verbatim>\<open>COZ_YIELD(i)\<close> is an \<^verbatim>\<open>lvref_wrapper<int>\<close>, one pointer; \<open>ptr\<close> is its
  \<^verbatim>\<open>size_align_of\<close>.
\<close>

record range_params =
  rp_i :: "32 word"
  rp_e :: "32 word"

definition range_body :: "size_align \<Rightarrow> (range_params, 32 word, 'x) stmt" where
  "range_body ptr =
     For (\<lambda>s. rp_i s \<noteq> rp_e s) (\<lambda>s. s\<lparr>rp_i := rp_i s + 1\<rparr>) (COZ_YIELD ptr (\<lambda>s. rp_i s))"

definition range :: "nat \<Rightarrow> size_align \<Rightarrow> 32 word \<Rightarrow> 32 word \<Rightarrow> (32 word list, 'x) run" where
  "range k ptr i e = consume k (range_body ptr) \<lparr>rp_i = i, rp_e = e\<rparr>"

definition range2 :: "nat \<Rightarrow> size_align \<Rightarrow> 32 word \<Rightarrow> 32 word \<Rightarrow> (32 word list, 'x) run" where
  "range2 k ptr i e = consume2 k (range_body ptr) \<lparr>rp_i = i, rp_e = e\<rparr>"

text \<open>
  The reference the specification compares with: the integers \<open>i\<close> to \<open>e - 1\<close> in
  increasing order.
\<close>

definition range_spec :: "32 word \<Rightarrow> 32 word \<Rightarrow> 32 word list" where
  "range_spec i e = map word_of_int [sint i .. sint e - 1]"

section \<open>Notions used in the properties\<close>

definition pairwise_max :: "size_align set \<Rightarrow> size_align" where
  "pairwise_max S = \<lparr>size_sa = Max (insert 0 (size_sa ` S)), align_sa = Max (insert 0 (align_sa ` S))\<rparr>"

text \<open>
  Every \<^verbatim>\<open>case\<close> label of the body is a distinct value below \<^verbatim>\<open>SENTINEL\<close>: the ordinals
  \<open>1, ..., counters body\<close> fit into \<^verbatim>\<open>unsigned\<close>.
\<close>

definition labels_fit :: "('s, 'v, 'x) stmt \<Rightarrow> bool" where
  "labels_fit body = (counters body + 1 < 2 ^ 32)"

text \<open>
  The suspension points of a statement, in source order: the ordinal of the resume
  label \<^verbatim>\<open>_coz_ip\<close> of each and the macro it comes from.  The cleanup label of a
  suspension point is the next ordinal.
\<close>

datatype susp_kind = AtYield | AtYieldLite | AtAwait

fun suspension_points :: "nat \<Rightarrow> ('s, 'v, 'x) stmt \<Rightarrow> (nat \<times> susp_kind) list" where
  "suspension_points n (Exec f) = []"
| "suspension_points n (Seq a b) = suspension_points n a @ suspension_points (n + counters a) b"
| "suspension_points n (Cond cnd a b) = suspension_points n a @ suspension_points (n + counters a) b"
| "suspension_points n (For cnd stp b) = suspension_points n b"
| "suspension_points n (COZ_YIELD sa e) = [(n, AtYield)]"
| "suspension_points n (COZ_YIELD_LITE e) = [(n, AtYieldLite)]"
| "suspension_points n (COZ_AWAIT_APPLY sa f e) = [(n, AtAwait)]"
| "suspension_points n (COZ_RETURN t) = []"
| "suspension_points n (COZ_TRY b hs) = suspension_points (n + 1) b"

text \<open>
  The scratch buffer holds the temporary of a suspension point of the given kind
  (\<^verbatim>\<open>COZ_YIELD_LITE\<close> has none), and the coroutine after that temporary is destroyed.
\<close>

definition live :: "susp_kind \<Rightarrow> ('p, 's, 'v, 'x) coroutine \<Rightarrow> bool" where
  "live kind c =
     (case kind of
        AtYield \<Rightarrow> (case m_mem_tmp c of Some (TmpValue v) \<Rightarrow> True | _ \<Rightarrow> False)
      | AtAwait \<Rightarrow> (case m_mem_tmp c of Some (TmpAwaiter a) \<Rightarrow> True | _ \<Rightarrow> False)
      | AtYieldLite \<Rightarrow> True)"

definition scrub :: "susp_kind \<Rightarrow> ('p, 's, 'v, 'x) coroutine \<Rightarrow> ('p, 's, 'v, 'x) coroutine" where
  "scrub kind c = (case kind of AtYieldLite \<Rightarrow> c | _ \<Rightarrow> c\<lparr>m_mem_tmp := None\<rparr>)"

text \<open>\<^verbatim>\<open>resume()\<close> called \<open>j\<close> times in a row, as \<^verbatim>\<open>++it\<close> does.\<close>

fun resume_times ::
  "('p, 'v, 'x) promise_hooks \<Rightarrow> nat \<Rightarrow> ('s, 'v, 'x) stmt \<Rightarrow> nat \<Rightarrow> ('p, 's, 'v, 'x) coroutine
     \<Rightarrow> (('p, 's, 'v, 'x) coroutine, 'x) run" where
  "resume_times P k body 0 c = Completed c"
| "resume_times P k body (Suc j) c =
     (case lift_result (resume P k body c) of
        Completed c' \<Rightarrow> resume_times P k body j c'
      | Escaped x \<Rightarrow> Escaped x
      | Crashed f \<Rightarrow> Crashed f
      | Timeout \<Rightarrow> Timeout)"

text \<open>
  The coroutine of \<^verbatim>\<open>range(i, e)\<close> suspended at its \<^verbatim>\<open>COZ_YIELD\<close> with \<open>j\<close> increments
  behind it: \<open>i + j\<close> is in the closure, in the scratch buffer and in \<^verbatim>\<open>m_data\<close>.
\<close>

definition range_at ::
  "32 word \<Rightarrow> 32 word \<Rightarrow> nat \<Rightarrow> (32 word, 'x) event list
     \<Rightarrow> (32 word gen_promise, range_params, 32 word, 'x) coroutine" where
  "range_at i e j tr =
     \<lparr>m_next = 1, m_eh = SENTINEL, promise = \<lparr>m_data = Some (i + of_nat j)\<rparr>,
      m_state = Some \<lparr>rp_i = i + of_nat j, rp_e = e\<rparr>,
      m_mem_tmp = Some (TmpValue (i + of_nat j)), trace = tr\<rparr>"

text \<open>The ordinals of the handler labels \<^verbatim>\<open>_coz_curr_eh\<close> of a statement.\<close>

fun try_ordinals :: "nat \<Rightarrow> ('s, 'v, 'x) stmt \<Rightarrow> nat list" where
  "try_ordinals n (Seq a b) = try_ordinals n a @ try_ordinals (n + counters a) b"
| "try_ordinals n (Cond cnd a b) = try_ordinals n a @ try_ordinals (n + counters a) b"
| "try_ordinals n (For cnd stp b) = try_ordinals n b"
| "try_ordinals n (COZ_TRY b hs) = n # try_ordinals (n + 1) b"
| "try_ordinals n s = []"

text \<open>The coroutine a statement leaves behind, when it leaves one.\<close>

definition reached :: "('c, 'x) outcome \<Rightarrow> 'c option" where
  "reached r =
     (case r of
        Continue c \<Rightarrow> Some c
      | GotoSuspend c \<Rightarrow> Some c
      | GotoFinalize c \<Rightarrow> Some c
      | Thrown x c \<Rightarrow> Some c
      | _ \<Rightarrow> None)"

text \<open>The statement has no loop.\<close>

fun loop_free :: "('s, 'v, 'x) stmt \<Rightarrow> bool" where
  "loop_free (Seq a b) = (loop_free a \<and> loop_free b)"
| "loop_free (Cond cnd a b) = (loop_free a \<and> loop_free b)"
| "loop_free (For cnd stp b) = False"
| "loop_free (COZ_TRY b hs) = loop_free b"
| "loop_free s = True"

text \<open>
  A bound on the passes of the \<^verbatim>\<open>_coz_retry\<close> loop that can still follow when the
  \<^verbatim>\<open>switch\<close> jumps to the handler label \<open>j\<close> of a statement without loops: the handler
  itself, the handlers of the regions around it, and those of the regions that begin
  after it.
\<close>

fun retries_left :: "nat \<Rightarrow> ('s, 'v, 'x) stmt \<Rightarrow> nat \<Rightarrow> nat" where
  "retries_left n (Seq a b) j =
     (if j < n + counters a then retries_left n a j + length (try_ordinals (n + counters a) b)
      else retries_left (n + counters a) b j)"
| "retries_left n (Cond cnd a b) j =
     (if j < n + counters a then retries_left n a j + length (try_ordinals (n + counters a) b)
      else retries_left (n + counters a) b j)"
| "retries_left n (For cnd stp b) j = retries_left n b j"
| "retries_left n (COZ_TRY b hs) j = (if j = n then 1 else 1 + retries_left (n + 1) b j)"
| "retries_left n s j = 0"

text \<open>
  The fatal ends that come from the promise and not from the engine: control reaches
  \<^verbatim>\<open>COZ_END\<close> and the promise has no \<^verbatim>\<open>return_void\<close> (the \<^verbatim>\<open>assert\<close> of
  \<^verbatim>\<open>implicit_return\<close>), or a \<^verbatim>\<open>COZ_RETURN\<close> needs a hook the promise does not have.
\<close>

definition lacks_return_hook :: "('p, 'v, 'x) promise_hooks \<Rightarrow> fatal \<Rightarrow> bool" where
  "lacks_return_hook P ft =
     ((ft = AssertFailed \<and> return_void P = None)
      \<or> (ft = NoOverload \<and> (return_void P = None \<or> return_value P = None)))"

text \<open>A \<^verbatim>\<open>switch\<close> that looks for a label has an exception in the carrier.\<close>

fun carries :: "'x mode \<Rightarrow> bool" where
  "carries Run = True"
| "carries (Seek l ex) = (ex \<noteq> None)"

text \<open>
  The call came back, by return after a finalizer or with an exception, and \<^verbatim>\<open>done()\<close>
  is true.
\<close>

definition completed :: "(('p, 's, 'v, 'x) coroutine, 'x) result \<Rightarrow> bool" where
  "completed r = (case r of Finished c \<Rightarrow> done_coro c | Raised x c \<Rightarrow> done_coro c | _ \<Rightarrow> False)"

text \<open>The label sought is not the cleanup label of a suspension point of the statement.\<close>

fun avoids_cleanup :: "nat \<Rightarrow> ('s, 'v, 'x) stmt \<Rightarrow> 'x mode \<Rightarrow> bool" where
  "avoids_cleanup n s Run = True"
| "avoids_cleanup n s (Seek l ex) = (\<forall>jk \<in> set (suspension_points n s). l \<noteq> of_nat (fst jk + 1))"



section \<open>Instances on which the properties are exercised\<close>

text \<open>
  The generator promise at the unit type, a coroutine before \<^verbatim>\<open>start\<close>, the same as
  \<^verbatim>\<open>start\<close> hands it to the engine, and one suspended at its first \<^verbatim>\<open>COZ_YIELD\<close>.
\<close>

definition unit_promise :: "(unit gen_promise, unit, unit) promise_hooks" where
  "unit_promise = promise_type"

definition fresh :: "(unit gen_promise, unit, unit, unit) coroutine" where
  "fresh = coroutine_init \<lparr>m_data = None\<rparr>"

definition started :: "(unit gen_promise, unit, unit, unit) coroutine" where
  "started = fresh\<lparr>m_state := Some (), m_next := 0\<rparr>"

definition yielded :: "(unit gen_promise, unit, unit, unit) coroutine" where
  "yielded = \<lparr>m_next = 1, m_eh = SENTINEL, promise = \<lparr>m_data = Some ()\<rparr>, m_state = Some (),
     m_mem_tmp = Some (TmpValue ()), trace = [EvYieldValue ()]\<rparr>"

text \<open>
  Bodies: a statement that throws; the same inside \<^verbatim>\<open>COZ_TRY { ... } COZ_CATCH (...) { }\<close>;
  a guarded region whose body does not throw, and that region followed by the
  throwing statement.
\<close>

definition throwing :: "(unit, unit, unit) stmt" where
  "throwing = Exec (\<lambda>s. (Some (), s))"

definition guarded :: "(unit, unit, unit) stmt" where
  "guarded = COZ_TRY throwing [(\<lambda>x. True, \<lambda>x s. Done s)]"

definition calm :: "(unit, unit, unit) stmt" where
  "calm = COZ_TRY (Exec (\<lambda>s. (None, s))) [(\<lambda>x. True, \<lambda>x s. Done s)]"

definition calm_then_throwing :: "(unit, unit, unit) stmt" where
  "calm_then_throwing = Seq calm throwing"

text \<open>
  A promise that keeps the value handed to \<^verbatim>\<open>return_value\<close>, and a body that ends in
  \<^verbatim>\<open>COZ_RETURN(s)\<close>.
\<close>

definition value_promise :: "(nat option, nat, unit) promise_hooks" where
  "value_promise = \<lparr>finalize = (\<lambda>p. p),
     yield_value = (\<lambda>u p. (None, p)),
     return_void = None,
     return_value = Some (\<lambda>v p. (None, Some v)),
     unhandled_exception = (\<lambda>x p. (Some x, p))\<rparr>"

definition returning :: "(nat, nat, unit) stmt" where
  "returning = Seq (Exec (\<lambda>s. (None, s + 1))) (COZ_RETURN (\<lambda>s. Value s))"

text \<open>
  Awaiters: one that is ready, one whose \<^verbatim>\<open>await_suspend\<close> returns \<^verbatim>\<open>void\<close>, one whose
  \<^verbatim>\<open>await_suspend\<close> returns \<^verbatim>\<open>false\<close>; and the statement awaiting one of them.
\<close>

definition ready_awaiter :: "unit awaiter" where
  "ready_awaiter = \<lparr>await_ready = True, await_suspend = (\<lambda>h. RetVoid), await_resume = ()\<rparr>"

definition void_awaiter :: "unit awaiter" where
  "void_awaiter = \<lparr>await_ready = False, await_suspend = (\<lambda>h. RetVoid), await_resume = ()\<rparr>"

definition declining_awaiter :: "unit awaiter" where
  "declining_awaiter = \<lparr>await_ready = False, await_suspend = (\<lambda>h. RetBool False), await_resume = ()\<rparr>"

definition awaiting :: "unit awaiter \<Rightarrow> (unit, unit, unit) stmt" where
  "awaiting a = COZ_AWAIT_APPLY size_align_zero (\<lambda>v s. (None, s)) (\<lambda>s. a)"

text \<open>\<^verbatim>\<open>size_align_of\<close> of a pointer on a 64-bit target.\<close>

definition pointer64 :: size_align where
  "pointer64 = \<lparr>size_sa = 8, align_sa = 8\<rparr>"

text \<open>
  A body that yields once, the same inside a guarded region, and the coroutine
  suspended at that \<^verbatim>\<open>COZ_YIELD\<close> inside the region.
\<close>

definition yielding :: "(unit, unit, unit) stmt" where
  "yielding = COZ_YIELD size_align_zero (\<lambda>s. ())"

definition guarded_yield :: "(unit, unit, unit) stmt" where
  "guarded_yield = COZ_TRY yielding [(\<lambda>x. True, \<lambda>x s. Done s)]"

definition yielded_in_region :: "(unit gen_promise, unit, unit, unit) coroutine" where
  "yielded_in_region = \<lparr>m_next = 2, m_eh = 1, promise = \<lparr>m_data = Some ()\<rparr>, m_state = Some (),
     m_mem_tmp = Some (TmpValue ()), trace = [EvYieldValue ()]\<rparr>"

text \<open>
  Guarded regions whose handlers return a value of their own:
  \<^verbatim>\<open>COZ_TRY { throw x; } COZ_CATCH (...) { COZ_RETURN(1); }\<close>, and the same with the region
  \<^verbatim>\<open>COZ_TRY { s; } COZ_CATCH (...) { COZ_RETURN(2); }\<close> in front of the \<^verbatim>\<open>throw\<close>.
\<close>

definition throwing_v :: "(unit, nat, unit) stmt" where
  "throwing_v = Exec (\<lambda>s. (Some (), s))"

definition outer_region :: "(unit, nat, unit) stmt" where
  "outer_region = COZ_TRY throwing_v [(\<lambda>x. True, \<lambda>x s. Ret (Value 1) s)]"

definition inner_region :: "(unit, nat, unit) stmt" where
  "inner_region = COZ_TRY (Exec (\<lambda>s. (None, s))) [(\<lambda>x. True, \<lambda>x s. Ret (Value 2) s)]"

definition nested_regions :: "(unit, nat, unit) stmt" where
  "nested_regions = COZ_TRY (Seq inner_region throwing_v) [(\<lambda>x. True, \<lambda>x s. Ret (Value 1) s)]"

text \<open>A body with a loop and no suspension point: \<^verbatim>\<open>for (; s < 3; ++s) { ...; }\<close>.\<close>

definition counting :: "(nat, unit, unit) stmt" where
  "counting = For (\<lambda>s. s < 3) (\<lambda>s. s + 1) (Exec (\<lambda>s. (None, s)))"

section \<open>Properties of the frame layout solver\<close>

lemma smp_load_state_from:
  "N \<le> length st \<Longrightarrow>
   smp_load_state st N = (if st = [] then None else Some (length st - 1, last st))"
proof (induction "length st - N" arbitrary: N)
  case 0
  then have "N = length st" by simp
  then show ?case
    by (subst smp_load_state.simps) (auto simp: observed_def last_conv_nth)
next
  case (Suc d)
  then have "N < length st" by simp
  moreover from Suc have "smp_load_state st (N + 1) = (if st = [] then None else Some (length st - 1, last st))"
    by (intro Suc.hyps) auto
  ultimately show ?case
    by (subst smp_load_state.simps) (simp add: observed_def)
qed

lemma smp_load_state_0:
  "smp_load_state st 0 = (if st = [] then None else Some (length st - 1, last st))"
  by (rule smp_load_state_from) simp

lemma update_size_align_impl_append:
  "st \<noteq> [] \<Longrightarrow> update_size_align_impl r st = Some (st @ [unite r (last st)])"
  by (simp add: update_size_align_impl_def smp_load_state_0 smp_store_state_def)

lemma update_all_last:
  "st \<noteq> [] \<Longrightarrow> \<exists>st'. update_all regs st = Some st' \<and> st' \<noteq> [] \<and>
     last st' = fold unite regs (last st)"
proof (induction regs arbitrary: st)
  case Nil
  then show ?case by simp
next
  case (Cons r regs)
  from Cons.IH [of "st @ [unite r (last st)]"] Cons.prems
  show ?case by (simp add: update_size_align_impl_append)
qed

lemma fold_unite_size:
  "size_sa (fold unite regs a) = Max (insert (size_sa a) (size_sa ` set regs))"
proof -
  have "size_sa (fold unite regs a) = fold max (map size_sa regs) (size_sa a)"
    by (induction regs arbitrary: a) (simp_all add: unite_def)
  also have "\<dots> = Max (set (size_sa a # map size_sa regs))"
    by (simp only: Max.set_eq_fold)
  finally show ?thesis by simp
qed

lemma fold_unite_align:
  "align_sa (fold unite regs a) = Max (insert (align_sa a) (align_sa ` set regs))"
proof -
  have "align_sa (fold unite regs a) = fold max (map align_sa regs) (align_sa a)"
    by (induction regs arbitrary: a) (simp_all add: unite_def)
  also have "\<dots> = Max (set (align_sa a # map align_sa regs))"
    by (simp only: Max.set_eq_fold)
  finally show ?thesis by simp
qed

lemma frame_layout_fold:
  "frame_layout regs = Some (fold unite regs size_align_zero)"
proof -
  obtain st' where "update_all regs [size_align_zero] = Some st'" "st' \<noteq> []"
    "last st' = fold unite regs size_align_zero"
    using update_all_last [of "[size_align_zero]" regs] by auto
  then show ?thesis
    by (simp add: frame_layout_def smp_init_state_def smp_store_state_def get_size_align_def
        smp_load_state_0)
qed

lemma frame_layout_max:
  "frame_layout regs = Some (pairwise_max (set regs))"
  unfolding frame_layout_fold pairwise_max_def
  using fold_unite_size [of regs size_align_zero] fold_unite_align [of regs size_align_zero]
  by (simp add: size_align_zero_def)

text \<open>
  C8.  The layout the solver ends with is the pairwise maximum of size and alignment
  over the set of registered observations (with the initial \<^verbatim>\<open>size_align{}\<close>).  It
  therefore does not depend on the order of registration, and registering an
  observation a second time changes nothing.
\<close>

theorem frame_layout_is_pairwise_max:
  "frame_layout regs = Some (pairwise_max (set regs))
   \<and> (\<forall>regs'. set regs' = set regs \<longrightarrow> frame_layout regs' = frame_layout regs)
   \<and> frame_layout (regs @ [r] @ regs2 @ [r] @ regs3) = frame_layout (regs @ [r] @ regs2 @ regs3)"
proof -
  have "frame_layout (regs @ [r] @ regs2 @ [r] @ regs3) = frame_layout (regs @ [r] @ regs2 @ regs3)"
    unfolding frame_layout_max by (rule arg_cong [where f = "\<lambda>S. Some (pairwise_max S)"]) auto
  then show ?thesis by (simp add: frame_layout_max)
qed

theorem frame_layout_is_pairwise_max_witness:
  "set [\<lparr>size_sa = 8, align_sa = 2\<rparr>, \<lparr>size_sa = 4, align_sa = 4\<rparr>, \<lparr>size_sa = 8, align_sa = 2\<rparr>]
     = set [\<lparr>size_sa = 4, align_sa = 4\<rparr>, \<lparr>size_sa = 8, align_sa = 2\<rparr>]
   \<and> frame_layout [\<lparr>size_sa = 8, align_sa = 2\<rparr>, \<lparr>size_sa = 4, align_sa = 4\<rparr>, \<lparr>size_sa = 8, align_sa = 2\<rparr>]
     = frame_layout [\<lparr>size_sa = 4, align_sa = 4\<rparr>, \<lparr>size_sa = 8, align_sa = 2\<rparr>]"
proof -
  have h: "set [\<lparr>size_sa = 8, align_sa = 2\<rparr>, \<lparr>size_sa = 4, align_sa = 4\<rparr>, \<lparr>size_sa = 8, align_sa = 2\<rparr>]
     = set [\<lparr>size_sa = 4, align_sa = 4\<rparr>, \<lparr>size_sa = 8, align_sa = 2\<rparr>]"
    by auto
  from frame_layout_is_pairwise_max [of "[\<lparr>size_sa = 4, align_sa = 4\<rparr>, \<lparr>size_sa = 8, align_sa = 2\<rparr>]"]
  have "\<forall>regs'. set regs' = set [\<lparr>size_sa = 4, align_sa = 4\<rparr>, \<lparr>size_sa = 8, align_sa = 2\<rparr>]
     \<longrightarrow> frame_layout regs' = frame_layout [\<lparr>size_sa = 4, align_sa = 4\<rparr>, \<lparr>size_sa = 8, align_sa = 2\<rparr>]"
    by (rule conjunct2 [THEN conjunct1])
  with h show ?thesis by blast
qed

section \<open>Basic facts about the engine\<close>

lemma emit_emit [simp]: "emit es (emit es' c) = emit (es' @ es) c"
  by (simp add: emit_def)

lemma emit_fields [simp]:
  "m_next (emit es c) = m_next c" "m_eh (emit es c) = m_eh c" "promise (emit es c) = promise c"
  "m_state (emit es c) = m_state c" "m_mem_tmp (emit es c) = m_mem_tmp c"
  "trace (emit es c) = trace c @ es"
  by (simp_all add: emit_def)

lemma emit_update [simp]:
  "(emit es c)\<lparr>m_next := a\<rparr> = emit es (c\<lparr>m_next := a\<rparr>)"
  "(emit es c)\<lparr>m_eh := b\<rparr> = emit es (c\<lparr>m_eh := b\<rparr>)"
  "(emit es c)\<lparr>promise := p\<rparr> = emit es (c\<lparr>promise := p\<rparr>)"
  "(emit es c)\<lparr>m_state := s\<rparr> = emit es (c\<lparr>m_state := s\<rparr>)"
  "(emit es c)\<lparr>m_mem_tmp := t\<rparr> = emit es (c\<lparr>m_mem_tmp := t\<rparr>)"
  by (simp_all add: emit_def)

lemma finalizer_fields [simp]:
  "m_next (finalizer P c) = m_next c" "m_eh (finalizer P c) = m_eh c"
  "promise (finalizer P c) = finalize P (promise c)" "m_state (finalizer P c) = None"
  "m_mem_tmp (finalizer P c) = m_mem_tmp c" "trace (finalizer P c) = trace c @ [EvFinalize]"
  by (simp_all add: finalizer_def)

lemma coz_operator_Inl:
  "engine_pass P k body ex c = Inl r \<Longrightarrow> coz_operator P k body ex c = r"
  by (cases k) simp_all

lemma coz_operator_Inr:
  "engine_pass P (Suc k) body ex c = Inr (x, c') \<Longrightarrow>
   coz_operator P (Suc k) body ex c = coz_operator P k body (Some x) c'"
  by simp

lemma unhandled_eq:
  "unhandled P x c =
     (case unhandled_exception P x (promise c) of
        (None, p') \<Rightarrow> Finished (c\<lparr>promise := finalize P p', m_state := None,
                                  trace := trace c @ [EvUnhandled x, EvFinalize]\<rparr>)
      | (Some x', p') \<Rightarrow> Raised x' (c\<lparr>promise := finalize P p', m_state := None,
                                      trace := trace c @ [EvUnhandled x, EvFinalize]\<rparr>))"
  by (simp add: unhandled_def call_hook_def finalizer_def emit_def split: prod.splits option.splits)

lemma seek_no_label:
  "(\<And>j. n \<le> j \<Longrightarrow> j < n + counters s \<Longrightarrow> (of_nat j :: pc) \<noteq> l)
   \<Longrightarrow> exec P k n ceh s (Seek l ex) c = NoCase"
proof (induction s arbitrary: k n ceh c)
  case (Seq a b)
  have "exec P k n ceh a (Seek l ex) c = NoCase"
    by (rule Seq.IH) (use Seq.prems in auto)
  moreover have "exec P k (n + counters a) ceh b (Seek l ex) c = NoCase"
    by (rule Seq.IH) (use Seq.prems in auto)
  ultimately show ?case by simp
next
  case (Cond cnd a b)
  have "exec P k n ceh a (Seek l ex) c = NoCase"
    by (rule Cond.IH) (use Cond.prems in auto)
  moreover have "exec P k (n + counters a) ceh b (Seek l ex) c = NoCase"
    by (rule Cond.IH) (use Cond.prems in auto)
  ultimately show ?case by simp
next
  case (For cnd stp b)
  have "exec P k n ceh b (Seek l ex) c = NoCase"
    by (rule For.IH) (use For.prems in auto)
  then show ?case by (cases k) simp_all
next
  case (COZ_YIELD sa e)
  from COZ_YIELD [of n] COZ_YIELD [of "n + 1"] show ?case by auto
next
  case (COZ_YIELD_LITE e)
  from COZ_YIELD_LITE [of n] COZ_YIELD_LITE [of "n + 1"] show ?case by auto
next
  case (COZ_AWAIT_APPLY sa f e)
  from COZ_AWAIT_APPLY [of n] COZ_AWAIT_APPLY [of "n + 1"] show ?case by auto
next
  case (COZ_TRY b hs)
  have "exec P k (n + 1) (of_nat n) b (Seek l ex) c = NoCase"
    by (rule COZ_TRY.IH) (use COZ_TRY.prems in auto)
  moreover from COZ_TRY.prems [of n] have "l \<noteq> of_nat n" by auto
  ultimately show ?case by simp
qed simp_all

lemma unat_SENTINEL: "unat SENTINEL = 4294967295"
  by (simp add: SENTINEL_def unsigned_minus_1_eq_mask mask_eq_exp_minus_1)

lemma label_neq_SENTINEL:
  assumes "j < 2 ^ 32 - 1"
  shows "(of_nat j :: pc) \<noteq> SENTINEL"
proof
  assume "(of_nat j :: pc) = SENTINEL"
  then have "unat (of_nat j :: pc) = unat SENTINEL" by simp
  with assms show False
    by (simp add: unat_SENTINEL unat_of_nat)
qed

lemma SENTINEL_neq_0 [simp]: "SENTINEL \<noteq> 0" "0 \<noteq> SENTINEL"
  by (simp_all add: SENTINEL_def)

lemma resume_done:
  assumes d: "done_coro c" and f: "labels_fit body"
  shows "resume P k body c = Unmatched c"
proof -
  have "exec P k 1 SENTINEL body (Seek SENTINEL None) c = NoCase"
  proof (rule seek_no_label)
    fix j :: nat assume "1 \<le> j" "j < 1 + counters body"
    with f have "j < 2 ^ 32 - 1" by (simp add: labels_fit_def)
    then show "(of_nat j :: pc) \<noteq> SENTINEL" by (rule label_neq_SENTINEL)
  qed
  with d have "engine_pass P k body None c = Inl (Unmatched c)"
    by (simp add: engine_pass_def dispatch_def done_coro_def)
  then show ?thesis
    by (cases k) (simp_all add: resume_def invoke_def)
qed

lemmas instance_defs = unit_promise_def promise_type_def fresh_def coroutine_init_def started_def
  throwing_def guarded_def calm_def calm_then_throwing_def yielded_def

lemmas engine_defs = engine_pass_def dispatch_def catch_all_def COZ_END_def implicit_return_def
  call_hook_def run_plain_def unhandled_eq finalizer_def emit_def coz_catch_def run_handler_def
  invoke_def start_def resume_def destroy_def

lemmas awaiter_defs = ready_awaiter_def void_awaiter_def declining_awaiter_def awaiting_def

section \<open>One pass of the engine\<close>

text \<open>
  How a call ends after the \<^verbatim>\<open>switch\<close>: at \<^verbatim>\<open>COZ_END\<close> when control reaches the end of
  the body, at \<^verbatim>\<open>_coz_finalize\<close> after \<^verbatim>\<open>COZ_RETURN\<close>, in the \<^verbatim>\<open>catch (...)\<close> clause with
  \<^verbatim>\<open>m_eh == SENTINEL\<close>, which hands the exception to \<^verbatim>\<open>unhandled_exception\<close> and runs
  the finalizer, or with a retry at the handler label in \<^verbatim>\<open>m_eh\<close>.
\<close>

lemma pass_end_of_body:
  assumes "dispatch P k body ex c = Continue c1" "return_void P = Some h" "h (promise c1) = (None, p')"
  shows "coz_operator P k body ex c
       = Finished (c1\<lparr>m_next := SENTINEL, promise := finalize P p', m_state := None,
                      trace := trace c1 @ [EvReturnVoid, EvFinalize]\<rparr>)"
proof -
  from assms have "engine_pass P k body ex c
       = Inl (Finished (c1\<lparr>m_next := SENTINEL, promise := finalize P p', m_state := None,
                      trace := trace c1 @ [EvReturnVoid, EvFinalize]\<rparr>))"
    by (simp add: engine_pass_def COZ_END_def implicit_return_def call_hook_def finalizer_def emit_def)
  then show ?thesis by (rule coz_operator_Inl)
qed

lemma pass_return:
  assumes "dispatch P k body ex c = GotoFinalize c1"
  shows "coz_operator P k body ex c = Finished (finalizer P c1)"
proof -
  from assms have "engine_pass P k body ex c = Inl (Finished (finalizer P c1))"
    by (simp add: engine_pass_def)
  then show ?thesis by (rule coz_operator_Inl)
qed

lemma pass_unhandled:
  assumes "dispatch P k body ex c = Thrown x c1" "m_eh c1 = SENTINEL"
  shows "coz_operator P k body ex c = unhandled P x (c1\<lparr>m_next := SENTINEL\<rparr>)"
proof -
  from assms have "engine_pass P k body ex c = Inl (unhandled P x (c1\<lparr>m_next := SENTINEL\<rparr>))"
    by (simp add: engine_pass_def catch_all_def Let_def)
  then show ?thesis by (rule coz_operator_Inl)
qed

lemma pass_handler:
  assumes "dispatch P k body ex c = Thrown x c1" "m_eh c1 \<noteq> SENTINEL" "0 < k"
  shows "coz_operator P k body ex c = coz_operator P (k - 1) body (Some x) (c1\<lparr>m_next := m_eh c1\<rparr>)"
proof -
  from assms(3) obtain k' where k: "k = Suc k'" by (cases k) auto
  from assms(1,2) have "engine_pass P k body ex c = Inr (x, c1\<lparr>m_next := m_eh c1\<rparr>)"
    by (simp add: engine_pass_def catch_all_def Let_def)
  with k show ?thesis by (simp add: coz_operator_Inr)
qed

lemmas return_defs = coz_return_def z_COZ_RETURN_def explicit_return_def

section \<open>Exceptions raised in the body\<close>

text \<open>
  C2.  The claim has an error raised inside a guarded region with a matching handler
  continue inside that handler.  The engine jumps to the label in \<^verbatim>\<open>m_eh\<close>, and
  \<^verbatim>\<open>m_eh\<close> still names the last region entered after that region is left.  In
  \<open>outer_region\<close> the \<^verbatim>\<open>throw\<close> reaches the handler of its region, which returns 1.
  In \<open>nested_regions\<close> the same \<^verbatim>\<open>throw\<close>, inside the outer region and after the inner
  one, reaches the handler of the inner region: the promise is handed 2, the
  finalizer runs, and the handler of the outer region never runs.
\<close>

theorem error_in_outer_region_reaches_inner_handler:
  "start value_promise 1 outer_region () (coroutine_init None)
     = Finished \<lparr>m_next = SENTINEL, m_eh = SENTINEL, promise = Some 1, m_state = None,
         m_mem_tmp = None, trace = [EvExec, EvHandler (), EvReturnValue 1, EvFinalize]\<rparr>
   \<and> start value_promise 1 nested_regions () (coroutine_init None)
     = Finished \<lparr>m_next = SENTINEL, m_eh = 1, promise = Some 2, m_state = None,
         m_mem_tmp = None, trace = [EvExec, EvExec, EvHandler (), EvReturnValue 2, EvFinalize]\<rparr>"
  by (simp add: throwing_v_def outer_region_def inner_region_def nested_regions_def
      value_promise_def coroutine_init_def engine_defs return_defs SENTINEL_def)

section \<open>The suspension protocol\<close>

text \<open>
  C4.  At a suspension point the awaiter is built in the scratch buffer and
  \<^verbatim>\<open>await_ready\<close> is asked exactly once.  If it is ready, \<^verbatim>\<open>try_suspend\<close> returns false
  and leaves \<^verbatim>\<open>m_next\<close> alone; otherwise it stores \<open>ip\<close> in \<^verbatim>\<open>m_next\<close> and then calls
  \<^verbatim>\<open>await_suspend\<close> with a handle that already shows the new \<^verbatim>\<open>m_next\<close>.  A \<^verbatim>\<open>bool\<close>
  result \<^verbatim>\<open>false\<close> makes the coroutine go on at \<^verbatim>\<open>case _coz_ip\<close> as it does when it is
  resumed; a \<^verbatim>\<open>void\<close> result always suspends.
\<close>

theorem suspension_point_protocol:
  "(await_ready p \<longrightarrow> try_suspend p ctx ip = (False, emit [EvAwaitReady] ctx))
 \<and> (\<not> await_ready p \<longrightarrow>
      try_suspend p ctx ip
        = (suspend p \<lparr>m_next = ip, m_eh = m_eh ctx\<rparr>, emit [EvAwaitReady, EvAwaitSuspend] (ctx\<lparr>m_next := ip\<rparr>)))
 \<and> (await_suspend p h = RetBool False \<longrightarrow> \<not> suspend p h)
 \<and> (await_suspend p h = RetBool True \<longrightarrow> suspend p h)
 \<and> (await_suspend p h = RetVoid \<longrightarrow> suspend p h)
 \<and> count_list (trace (snd (try_suspend p ctx ip))) EvAwaitReady = count_list (trace ctx) EvAwaitReady + 1
 \<and> (m_state c = Some s \<longrightarrow>
      exec P k n ceh (COZ_AWAIT_APPLY sa f e) Run c
        = (case try_suspend (e s) (c\<lparr>m_mem_tmp := Some (TmpAwaiter (e s))\<rparr>) (of_nat n) of
             (True, c') \<Rightarrow> GotoSuspend c'
           | (False, c') \<Rightarrow> exec P k n ceh (COZ_AWAIT_APPLY sa f e) (Seek (of_nat n) None) c'))"
  by (auto simp add: try_suspend_def suspend_def handle_def await_suspend_or_continue_def Let_def
      split: susp_ret.splits bool.splits)

theorem suspension_point_protocol_witness:
  "try_suspend ready_awaiter started 1 = (False, emit [EvAwaitReady] started)
   \<and> try_suspend void_awaiter started 1 = (True, emit [EvAwaitReady, EvAwaitSuspend] (started\<lparr>m_next := 1\<rparr>))
   \<and> try_suspend declining_awaiter started 1 = (False, emit [EvAwaitReady, EvAwaitSuspend] (started\<lparr>m_next := 1\<rparr>))
   \<and> exec unit_promise 0 1 SENTINEL (awaiting void_awaiter) Run started
       = GotoSuspend (emit [EvAwaitReady, EvAwaitSuspend] (started\<lparr>m_mem_tmp := Some (TmpAwaiter void_awaiter), m_next := 1\<rparr>))
   \<and> exec unit_promise 0 1 SENTINEL (awaiting declining_awaiter) Run started
       = Continue (emit [EvAwaitReady, EvAwaitSuspend, EvAwaitResume, EvExec] (started\<lparr>m_next := 1\<rparr>))"
proof -
  let ?h = "\<lparr>m_next = 1, m_eh = m_eh started\<rparr>"
  note T = suspension_point_protocol [where ctx = started and ip = 1 and h = ?h and c = started and s = "()"
      and P = unit_promise and k = 0 and n = 1 and ceh = SENTINEL and sa = size_align_zero
      and f = "\<lambda>v s. (None, s)"]
  have r: "await_ready ready_awaiter" "\<not> await_ready void_awaiter" "\<not> await_ready declining_awaiter"
    by (simp_all add: awaiter_defs)
  have s: "await_suspend void_awaiter ?h = RetVoid" "await_suspend declining_awaiter ?h = RetBool False"
    by (simp_all add: awaiter_defs)
  have m: "m_state started = Some ()"
    by (simp add: instance_defs)
  have 1: "try_suspend ready_awaiter started 1 = (False, emit [EvAwaitReady] started)"
    using T [where p = ready_awaiter and e = "\<lambda>s. ready_awaiter"] r by blast
  have 2: "try_suspend void_awaiter started 1 = (True, emit [EvAwaitReady, EvAwaitSuspend] (started\<lparr>m_next := 1\<rparr>))"
    using T [where p = void_awaiter and e = "\<lambda>s. void_awaiter"] r s by simp
  have 3: "try_suspend declining_awaiter started 1 = (False, emit [EvAwaitReady, EvAwaitSuspend] (started\<lparr>m_next := 1\<rparr>))"
    using T [where p = declining_awaiter and e = "\<lambda>s. declining_awaiter"] r s by simp
  have "exec unit_promise 0 1 SENTINEL (awaiting void_awaiter) Run started
        = (case try_suspend void_awaiter (started\<lparr>m_mem_tmp := Some (TmpAwaiter void_awaiter)\<rparr>) (of_nat 1) of
             (True, c') \<Rightarrow> GotoSuspend c'
           | (False, c') \<Rightarrow> exec unit_promise 0 1 SENTINEL (awaiting void_awaiter) (Seek (of_nat 1) None) c')"
    unfolding awaiting_def
    using T [where p = void_awaiter and e = "\<lambda>s. void_awaiter"] m by blast
  then have 4: "exec unit_promise 0 1 SENTINEL (awaiting void_awaiter) Run started
       = GotoSuspend (emit [EvAwaitReady, EvAwaitSuspend] (started\<lparr>m_mem_tmp := Some (TmpAwaiter void_awaiter), m_next := 1\<rparr>))"
    by (simp add: try_suspend_def suspend_def handle_def awaiter_defs)
  have "exec unit_promise 0 1 SENTINEL (awaiting declining_awaiter) Run started
        = (case try_suspend declining_awaiter (started\<lparr>m_mem_tmp := Some (TmpAwaiter declining_awaiter)\<rparr>) (of_nat 1) of
             (True, c') \<Rightarrow> GotoSuspend c'
           | (False, c') \<Rightarrow> exec unit_promise 0 1 SENTINEL (awaiting declining_awaiter) (Seek (of_nat 1) None) c')"
    unfolding awaiting_def
    using T [where p = declining_awaiter and e = "\<lambda>s. declining_awaiter"] m by blast
  then have 5: "exec unit_promise 0 1 SENTINEL (awaiting declining_awaiter) Run started
       = Continue (emit [EvAwaitReady, EvAwaitSuspend, EvAwaitResume, EvExec] (started\<lparr>m_next := 1\<rparr>))"
    by (simp add: try_suspend_def suspend_def handle_def awaiter_defs await_case_def instance_defs emit_def)
  from 1 2 3 4 5 show ?thesis by blast
qed

section \<open>Explicit return\<close>

text \<open>
  C6.  \<^verbatim>\<open>COZ_RETURN(v)\<close> hands exactly \<open>v\<close> to \<^verbatim>\<open>return_value\<close>; \<^verbatim>\<open>return_void\<close> is the
  hook called when the macro has no argument or an argument of type \<^verbatim>\<open>void\<close>, which
  carries no value.  \<^verbatim>\<open>m_next\<close> becomes \<^verbatim>\<open>SENTINEL\<close>, and the engine, on reaching the
  return, runs the finalizer once: the coroutine ends with what \<^verbatim>\<open>return_value\<close> made
  of \<open>v\<close> in its promise, whatever the type of \<open>v\<close>.
\<close>

theorem explicit_return_round_trip:
  "(m_state c = Some s \<longrightarrow> exec P k n ceh (COZ_RETURN t) Run c = coz_return P (t s) c)
 \<and> (return_value P = Some rv \<and> rv v (promise c) = (None, p') \<longrightarrow>
      coz_return P (Value v) c
        = GotoFinalize (c\<lparr>m_next := SENTINEL, promise := p', trace := trace c @ [EvReturnValue v]\<rparr>))
 \<and> (return_void P = Some h \<and> h (promise c) = (None, p') \<longrightarrow>
      coz_return P NoArg c
        = GotoFinalize (c\<lparr>m_next := SENTINEL, promise := p', trace := trace c @ [EvReturnVoid]\<rparr>)
      \<and> coz_return P VoidExpr c = coz_return P NoArg c)
 \<and> (return_value P = Some rv \<and> rv v (promise c) = (None, p')
      \<and> dispatch P k body ex ca = coz_return P (Value v) c \<longrightarrow>
      coz_operator P k body ex ca
        = Finished (c\<lparr>m_next := SENTINEL, promise := finalize P p', m_state := None,
                     trace := trace c @ [EvReturnValue v, EvFinalize]\<rparr>)
      \<and> count_list (trace c @ [EvReturnValue v, EvFinalize]) EvFinalize = count_list (trace c) EvFinalize + 1)"
proof -
  have a: "coz_return P (Value v) c
        = GotoFinalize (c\<lparr>m_next := SENTINEL, promise := p', trace := trace c @ [EvReturnValue v]\<rparr>)"
    if "return_value P = Some rv" "rv v (promise c) = (None, p')" for rv p'
    using that by (simp add: coz_return_def z_COZ_RETURN_def explicit_return_def call_hook_def emit_def)
  have b: "coz_return P NoArg c
        = GotoFinalize (c\<lparr>m_next := SENTINEL, promise := p', trace := trace c @ [EvReturnVoid]\<rparr>)
      \<and> coz_return P VoidExpr c = coz_return P NoArg c"
    if "return_void P = Some h" "h (promise c) = (None, p')" for h p'
    using that by (simp add: coz_return_def z_COZ_RETURN_def explicit_return_def call_hook_def emit_def)
  have d: "coz_operator P k body ex ca
        = Finished (c\<lparr>m_next := SENTINEL, promise := finalize P p', m_state := None,
                     trace := trace c @ [EvReturnValue v, EvFinalize]\<rparr>)"
    if "return_value P = Some rv" "rv v (promise c) = (None, p')"
       "dispatch P k body ex ca = coz_return P (Value v) c" for rv p'
  proof -
    from that a have "engine_pass P k body ex ca = Inl (Finished (finalizer P
        (c\<lparr>m_next := SENTINEL, promise := p', trace := trace c @ [EvReturnValue v]\<rparr>)))"
      by (simp add: engine_pass_def)
    then show ?thesis
      by (simp add: coz_operator_Inl finalizer_def emit_def)
  qed
  show ?thesis
    using a b d by (simp split: option.splits)
qed

theorem explicit_return_round_trip_witness:
  "start value_promise 0 returning 41 (coroutine_init None)
     = Finished \<lparr>m_next = SENTINEL, m_eh = SENTINEL, promise = Some 42, m_state = None,
         m_mem_tmp = None, trace = [EvExec, EvReturnValue 42, EvFinalize]\<rparr>"
proof -
  let ?ini = "(coroutine_init None :: (nat option, nat, nat, unit) coroutine)\<lparr>m_state := Some 41, m_next := 0\<rparr>"
  let ?c = "emit [EvExec] (?ini\<lparr>m_state := Some 42\<rparr>)"
  note T = explicit_return_round_trip [where P = value_promise and c = ?c and s = 42 and t = "\<lambda>s. Value s" and v = 42
      and rv = "\<lambda>v p. (None, Some v)" and p' = "Some 42" and k = 0 and body = returning
      and ex = None and ca = ?ini and n = 1 and ceh = SENTINEL and h = "\<lambda>p. (None, p)"]
  have h1: "m_state ?c = Some 42" by simp
  have h2: "return_value value_promise = Some (\<lambda>v p. (None, Some v))
      \<and> (\<lambda>v p. (None, Some v)) 42 (promise ?c) = (None, Some 42)"
    by (simp add: value_promise_def)
  have "exec value_promise 0 1 SENTINEL (COZ_RETURN (\<lambda>s. Value s)) Run ?c = coz_return value_promise (Value 42) ?c"
    using T h1 by blast
  then have h3: "dispatch value_promise 0 returning None ?ini = coz_return value_promise (Value 42) ?c"
    by (simp add: dispatch_def returning_def run_plain_def coroutine_init_def)
  have "coz_operator value_promise 0 returning None ?ini
        = Finished (?c\<lparr>m_next := SENTINEL, promise := finalize value_promise (Some 42), m_state := None,
                     trace := trace ?c @ [EvReturnValue 42, EvFinalize]\<rparr>)"
    using T h2 h3 by blast
  then show ?thesis
    by (simp add: start_def invoke_def coroutine_init_def emit_def value_promise_def)
qed

section \<open>Resuming a coroutine that is done\<close>

text \<open>
  C10.  When \<^verbatim>\<open>m_next\<close> is \<^verbatim>\<open>SENTINEL\<close> (and the labels of the body fit into
  \<^verbatim>\<open>unsigned\<close>, so that none of them is \<^verbatim>\<open>SENTINEL\<close>), \<^verbatim>\<open>resume\<close> finds no \<^verbatim>\<open>case\<close> and
  returns the coroutine as it was: no statement of the body runs, no hook is called,
  and both program counters and the promise are unchanged.
\<close>

theorem resume_when_done_is_noop:
  "done_coro c \<Longrightarrow> labels_fit body \<Longrightarrow> resume P k body c = Unmatched c"
  by (rule resume_done)

theorem resume_when_done_is_noop_witness:
  "done_coro fresh \<and> labels_fit guarded \<and> resume unit_promise 0 guarded fresh = Unmatched fresh"
proof -
  have h: "done_coro fresh" "labels_fit guarded"
    by (simp_all add: done_coro_def labels_fit_def instance_defs)
  with resume_when_done_is_noop [of fresh guarded unit_promise 0] show ?thesis by blast
qed

section \<open>Guarded regions\<close>

text \<open>
  What holds of \<^verbatim>\<open>COZ_TRY\<close> and \<^verbatim>\<open>COZ_CATCH\<close>: entering the region stores its own
  handler label in \<^verbatim>\<open>m_eh\<close> and makes it the \<^verbatim>\<open>_coz_curr_eh\<close> of the nested code;
  entering the handler stores the enclosing \<^verbatim>\<open>_coz_prev_eh\<close> back; and when no clause
  matches, the exception leaves the handler with \<^verbatim>\<open>m_eh\<close> at that previous value.
\<close>

lemma catch_clauses_no_match:
  "\<forall>mh \<in> set hs. \<not> fst mh x \<Longrightarrow> catch_clauses P hs x c = Thrown x c"
  by (induction hs) auto

lemma guarded_region_entry_and_handler:
  "exec P k n ceh (COZ_TRY b hs) Run c = exec P k (n + 1) (of_nat n) b Run (c\<lparr>m_eh := of_nat n\<rparr>)"
  "\<forall>mh \<in> set hs. \<not> fst mh x \<Longrightarrow>
     exec P k n ceh (COZ_TRY b hs) (Seek (of_nat n) (Some x)) c = Thrown x (c\<lparr>m_eh := ceh\<rparr>)"
  by (simp_all add: coz_catch_def catch_clauses_no_match)

text \<open>
  C5.  The claim has a guarded region restore the previous \<^verbatim>\<open>m_eh\<close> when it is left
  without an exception.  \<^verbatim>\<open>COZ_TRY\<close> expands to an \<^verbatim>\<open>if\<close> whose branch is the region's
  body, and nothing follows that branch: the region \<open>calm\<close>, entered with
  \<^verbatim>\<open>m_eh = SENTINEL\<close>, is left with \<^verbatim>\<open>m_eh = 1\<close>, its own handler.  An exception thrown
  after the region is then taken by the handler of the region already left, and the
  statement after the region runs a second time.
\<close>

theorem guarded_region_exit_keeps_handler:
  "m_eh started = SENTINEL
   \<and> exec unit_promise 0 1 SENTINEL calm Run started = Continue (emit [EvExec] (started\<lparr>m_eh := 1\<rparr>))
   \<and> m_eh (emit [EvExec] (started\<lparr>m_eh := 1\<rparr>)) \<noteq> SENTINEL
   \<and> start unit_promise 2 calm_then_throwing () fresh
       = Raised () (started\<lparr>m_next := SENTINEL, m_state := None,
           trace := [EvExec, EvExec, EvHandler (), EvExec, EvUnhandled (), EvFinalize]\<rparr>)"
proof -
  have "start unit_promise 2 calm_then_throwing () fresh
       = Raised () (started\<lparr>m_next := SENTINEL, m_state := None,
           trace := [EvExec, EvExec, EvHandler (), EvExec, EvUnhandled (), EvFinalize]\<rparr>)"
    by (simp add: numeral_2_eq_2 instance_defs engine_defs SENTINEL_def)
  then show ?thesis
    by (simp add: instance_defs run_plain_def emit_def SENTINEL_def)
qed

section \<open>The generator \<^verbatim>\<open>range(i, e)\<close>\<close>

text \<open>
  One \<^verbatim>\<open>resume()\<close> of the suspended generator: the temporary is destroyed at
  \<^verbatim>\<open>case _coz_ip\<close>, \<^verbatim>\<open>++i\<close> runs, and either the loop yields the next value or it ends and
  \<^verbatim>\<open>COZ_END\<close> closes the coroutine.
\<close>

lemma for_exit:
  "m_state c = Some s \<Longrightarrow> \<not> cnd s \<Longrightarrow> exec P k n ceh (For cnd stp b) Run c = Continue c"
  by (cases k) simp_all

lemma resume_range_step:
  assumes y: "yield_value P = (\<lambda>u p. (None, p\<lparr>m_data := Some u\<rparr>))"
    and ne: "i + of_nat j + 1 \<noteq> e"
  shows "resume P (Suc (Suc k)) (range_body ptr) (range_at i e j tr)
       = Suspended (range_at i e (Suc j) (tr @ [EvExec, EvYieldValue (i + of_nat (Suc j))]))"
  using ne
  by (simp add: resume_def invoke_def engine_pass_def dispatch_def range_body_def range_at_def
      yield_resume_def yield_suspend_def for_step_def call_hook_def y emit_def SENTINEL_def
      add.assoc add.commute)

lemma resume_range_last:
  assumes r: "return_void P = Some (\<lambda>p. (None, p))"
    and eq: "i + of_nat j + 1 = e"
  shows "resume P (Suc k) (range_body ptr) (range_at i e j tr)
       = Finished \<lparr>m_next = SENTINEL, m_eh = SENTINEL,
            promise = finalize P \<lparr>m_data = Some (i + of_nat j)\<rparr>,
            m_state = None, m_mem_tmp = None, trace = tr @ [EvExec, EvReturnVoid, EvFinalize]\<rparr>"
  using eq
  by (simp add: resume_def invoke_def engine_pass_def dispatch_def range_body_def range_at_def
      yield_resume_def for_step_def call_hook_def r emit_def SENTINEL_def COZ_END_def
      implicit_return_def finalizer_def add.assoc add.commute for_exit)

lemma offset_inj:
  assumes "j \<le> m" "m < 2 ^ 32"
  shows "(i + of_nat j = i + (of_nat m :: 32 word)) = (j = m)"
proof -
  from assms have "take_bit 32 j = j" "take_bit 32 m = m"
    by (simp_all add: take_bit_nat_eq_self)
  then show ?thesis by (simp add: word_of_nat_eq_iff)
qed

lemma range_for_done:
  "done_coro c \<Longrightarrow> range_for P k body c out = Completed (out, c)"
  by (cases k) simp_all

lemma range_at_not_done [simp]: "\<not> done_coro (range_at i e j tr)"
  by (simp add: done_coro_def range_at_def SENTINEL_def)

lemma range_for_from:
  assumes y: "yield_value P = (\<lambda>u p. (None, p\<lparr>m_data := Some u\<rparr>))"
    and r: "return_void P = Some (\<lambda>p. (None, p))"
    and m: "m < 2 ^ 32" and e: "e = i + of_nat m"
  shows "j < m \<Longrightarrow> m - j \<le> k \<Longrightarrow>
     \<exists>cf. range_for P k (range_body ptr) (range_at i e j tr) out
            = Completed (out @ map (\<lambda>t. i + of_nat t) [j..<m], cf) \<and> done_coro cf"
proof (induction k arbitrary: j tr out)
  case 0
  then show ?case by simp
next
  case (Suc k)
  have d: "m_data (promise (range_at i e j tr)) = Some (i + of_nat j)"
    by (simp add: range_at_def)
  show ?case
  proof (cases "Suc j = m")
    case True
    have sj: "i + of_nat j + 1 = i + (of_nat (Suc j) :: 32 word)" by simp
    from True have "i + of_nat j + 1 = e" unfolding sj e by simp
    from resume_range_last [OF r this, of k ptr tr]
    obtain cf where cf: "resume P (Suc k) (range_body ptr) (range_at i e j tr) = Finished cf"
      "done_coro cf"
      by (simp add: done_coro_def)
    moreover from True have "[j..<m] = [j]" by (simp add: upt_rec)
    ultimately show ?thesis
      by (simp add: d lift_result_def range_for_done)
  next
    case False
    with Suc.prems have lt: "Suc j < m" by simp
    with m have "(i + of_nat (Suc j) = i + (of_nat m :: 32 word)) = (Suc j = m)"
      by (intro offset_inj) simp_all
    moreover have "i + of_nat j + 1 = i + (of_nat (Suc j) :: 32 word)" by simp
    ultimately have ne: "i + of_nat j + 1 \<noteq> e" using False unfolding e by (simp add: add.commute)
    from lt Suc.prems obtain k' where k: "k = Suc k'" by (cases k) simp_all
    from resume_range_step [OF y ne, of k' ptr tr]
    have st: "resume P (Suc k) (range_body ptr) (range_at i e j tr)
        = Suspended (range_at i e (Suc j) (tr @ [EvExec, EvYieldValue (i + of_nat (Suc j))]))"
      by (simp add: k)
    from lt Suc.prems have "m - Suc j \<le> k" by simp
    from Suc.IH [OF lt this, of "tr @ [EvExec, EvYieldValue (i + of_nat (Suc j))]" "out @ [i + of_nat j]"]
    obtain cf where "range_for P k (range_body ptr)
          (range_at i e (Suc j) (tr @ [EvExec, EvYieldValue (i + of_nat (Suc j))])) (out @ [i + of_nat j])
        = Completed ((out @ [i + of_nat j]) @ map (\<lambda>t. i + of_nat t) [Suc j..<m], cf)" "done_coro cf"
      by blast
    moreover from lt have "[j..<m] = j # [Suc j..<m]" by (simp add: upt_rec)
    ultimately show ?thesis
      by (simp add: d st lift_result_def)
  qed
qed

lemma start_range:
  assumes y: "yield_value P = (\<lambda>u p. (None, p\<lparr>m_data := Some u\<rparr>))"
    and ne: "i \<noteq> e"
  shows "start P (Suc k) (range_body ptr) \<lparr>rp_i = i, rp_e = e\<rparr> (coroutine_init \<lparr>m_data = None\<rparr>)
       = Suspended (range_at i e 0 [EvYieldValue i])"
  using ne
  by (simp add: start_def invoke_def engine_pass_def dispatch_def range_body_def range_at_def
      yield_suspend_def call_hook_def y emit_def coroutine_init_def)

lemma start_range_empty:
  assumes r: "return_void P = Some (\<lambda>p. (None, p))"
  shows "start P k (range_body ptr) \<lparr>rp_i = e, rp_e = e\<rparr> (coroutine_init \<lparr>m_data = None\<rparr>)
       = Finished \<lparr>m_next = SENTINEL, m_eh = SENTINEL, promise = finalize P \<lparr>m_data = None\<rparr>,
            m_state = None, m_mem_tmp = None, trace = [EvReturnVoid, EvFinalize]\<rparr>"
  by (cases k)
     (simp_all add: start_def invoke_def engine_pass_def dispatch_def range_body_def
      call_hook_def r emit_def coroutine_init_def COZ_END_def implicit_return_def finalizer_def for_exit)

lemma upto_as_map: "[a..b] = map (\<lambda>t. a + int t) [0..<nat (b - a + 1)]"
  by (rule nth_equalityI) (simp_all add: nth_upto)

lemma sint_word_of_int_32:
  "- (2 ^ 31) \<le> x \<Longrightarrow> x < 2 ^ 31 \<Longrightarrow> sint (word_of_int x :: 32 word) = x"
  by (simp add: int_word_sint)

lemma sint_bounds_32: "- (2 ^ 31) \<le> sint (w :: 32 word)" "sint (w :: 32 word) < 2 ^ 31"
  using sint_ge [of w] sint_lt [of w] by simp_all

lemma range_spec_as_map:
  "range_spec i e = map (\<lambda>t. i + of_nat t) [0..<nat (sint e - sint i)]"
  by (simp add: range_spec_def upto_as_map)

lemma range_end:
  fixes i e :: "32 word"
  assumes "sint i \<le> sint e"
  shows "e = i + of_nat (nat (sint e - sint i))" "nat (sint e - sint i) < 2 ^ 32"
proof -
  from assms show "e = i + of_nat (nat (sint e - sint i))" by simp
  from sint_bounds_32 [of i] sint_bounds_32 [of e] show "nat (sint e - sint i) < 2 ^ 32" by simp
qed

lemma range_spec_nth:
  assumes "sint i \<le> sint e" "t < nat (sint e - sint i)"
  shows "range_spec i e ! t = i + of_nat t" "sint (range_spec i e ! t) = sint i + int t"
proof -
  from assms show n: "range_spec i e ! t = i + of_nat t"
    by (simp add: range_spec_as_map)
  have "i + of_nat t = word_of_int (sint i + int t)" by simp
  moreover have "sint (word_of_int (sint i + int t) :: 32 word) = sint i + int t"
    using assms sint_bounds_32 [of i] sint_bounds_32 [of e]
    by (intro sint_word_of_int_32) simp_all
  ultimately show "sint (range_spec i e ! t) = sint i + int t"
    by (simp only: n)
qed

lemma resume_times_range:
  assumes y: "yield_value P = (\<lambda>u p. (None, p\<lparr>m_data := Some u\<rparr>))"
    and m: "m < 2 ^ 32" and e: "e = i + of_nat m"
  shows "j + t < m \<Longrightarrow> m - j \<le> k \<Longrightarrow>
     \<exists>tr'. resume_times P k (range_body ptr) t (range_at i e j tr) = Completed (range_at i e (j + t) tr')"
proof (induction t arbitrary: j tr)
  case 0
  then show ?case by auto
next
  case (Suc t)
  then have lt: "Suc j < m" by simp
  with m have "(i + of_nat (Suc j) = i + (of_nat m :: 32 word)) = (Suc j = m)"
    by (intro offset_inj) simp_all
  moreover have "i + of_nat j + 1 = i + (of_nat (Suc j) :: 32 word)" by simp
  ultimately have ne: "i + of_nat j + 1 \<noteq> e" using lt unfolding e by (simp add: add.commute)
  from lt Suc.prems obtain k' where k: "k = Suc (Suc k')"
    by (cases k; cases "k - 1") simp_all
  from resume_range_step [OF y ne, of k' ptr tr]
  have st: "resume P k (range_body ptr) (range_at i e j tr)
      = Suspended (range_at i e (Suc j) (tr @ [EvExec, EvYieldValue (i + of_nat (Suc j))]))"
    by (simp add: k)
  from Suc.prems have "Suc j + t < m" "m - Suc j \<le> k" by simp_all
  from Suc.IH [OF this, of "tr @ [EvExec, EvYieldValue (i + of_nat (Suc j))]"]
  show ?case by (simp add: st lift_result_def)
qed

lemma resume_times_range_last:
  assumes y: "yield_value P = (\<lambda>u p. (None, p\<lparr>m_data := Some u\<rparr>))"
    and r: "return_void P = Some (\<lambda>p. (None, p))"
    and m: "m < 2 ^ 32" and e: "e = i + of_nat m"
  shows "j < m \<Longrightarrow> m - j \<le> k \<Longrightarrow> m - j = t \<Longrightarrow>
     \<exists>cf. resume_times P k (range_body ptr) t (range_at i e j tr) = Completed cf \<and> done_coro cf"
proof (induction t arbitrary: j tr)
  case 0
  then show ?case by simp
next
  case (Suc t)
  have sj: "i + of_nat j + 1 = i + (of_nat (Suc j) :: 32 word)" by simp
  show ?case
  proof (cases "Suc j = m")
    case True
    then have "i + of_nat j + 1 = e" unfolding sj e by simp
    moreover from Suc.prems obtain k' where "k = Suc k'" by (cases k) simp_all
    ultimately obtain cf where "resume P k (range_body ptr) (range_at i e j tr) = Finished cf"
      "done_coro cf"
      using resume_range_last [OF r, of i j e k' ptr tr] by (simp add: done_coro_def)
    moreover from True Suc.prems have "t = 0" by simp
    ultimately show ?thesis by (simp add: lift_result_def)
  next
    case False
    with Suc.prems have lt: "Suc j < m" by simp
    with m have "(i + of_nat (Suc j) = i + (of_nat m :: 32 word)) = (Suc j = m)"
      by (intro offset_inj) simp_all
    then have ne: "i + of_nat j + 1 \<noteq> e" using False unfolding sj e by simp
    from lt Suc.prems obtain k' where k: "k = Suc (Suc k')"
      by (cases k; cases "k - 1") simp_all
    from resume_range_step [OF y ne, of k' ptr tr]
    have st: "resume P k (range_body ptr) (range_at i e j tr)
        = Suspended (range_at i e (Suc j) (tr @ [EvExec, EvYieldValue (i + of_nat (Suc j))]))"
      by (simp add: k)
    from lt Suc.prems have "m - Suc j \<le> k" "m - Suc j = t" by simp_all
    from Suc.IH [OF lt this, of "tr @ [EvExec, EvYieldValue (i + of_nat (Suc j))]"]
    show ?thesis by (simp add: st lift_result_def)
  qed
qed

lemma gen_hooks:
  "yield_value promise_type = (\<lambda>u p. (None, p\<lparr>m_data := Some u\<rparr>))"
  "return_void promise_type = Some (\<lambda>p. (None, p))"
  "yield_value generator_promise = (\<lambda>u p. (None, p\<lparr>m_data := Some u\<rparr>))"
  "return_void generator_promise = Some (\<lambda>p. (None, p))"
  by (simp_all add: promise_type_def generator_promise_def)

lemma consume_range:
  fixes i e :: "32 word"
  assumes le: "sint i \<le> sint e" and k: "nat (sint e - sint i) \<le> k"
  shows "(consume k (range_body ptr) \<lparr>rp_i = i, rp_e = e\<rparr> :: (32 word list, 'x) run)
           = Completed (range_spec i e)"
    and "(consume2 k (range_body ptr) \<lparr>rp_i = i, rp_e = e\<rparr> :: (32 word list, 'x) run)
           = Completed (range_spec i e)"
proof -
  define m where "m = nat (sint e - sint i)"
  from range_end [OF le] have e: "e = i + of_nat m" and m: "m < 2 ^ 32"
    by (simp_all add: m_def)
  have spec: "range_spec i e = map (\<lambda>t. i + of_nat t) [0..<m]"
    by (simp add: range_spec_as_map m_def)
  have fresh_done: "done_coro (coroutine_init p)" for p :: "32 word gen_promise"
    by (simp add: done_coro_def coroutine_init_def)
  let ?tr = "[EvYieldValue i] :: (32 word, 'x) event list"
  show "(consume k (range_body ptr) \<lparr>rp_i = i, rp_e = e\<rparr> :: (32 word list, 'x) run)
           = Completed (range_spec i e)"
  proof (cases "m = 0")
    case True
    then have "i = e" using e by simp
    moreover from True have "range_spec i e = []" by (simp add: spec)
    ultimately show ?thesis
      by (simp add: consume_def generator_impl_def lift_result_def range_for_done done_coro_def
          generator_dtor_def start_range_empty [OF gen_hooks(2)])
  next
    case False
    with offset_inj [of 0 m i] m e have ne: "i \<noteq> e" by simp
    from False k obtain k' where k': "k = Suc k'" by (cases k) (simp_all add: m_def)
    from range_for_from [OF gen_hooks(1) gen_hooks(2) m e, of 0 k ptr ?tr "[]"] False k
    obtain cf where "range_for promise_type k (range_body ptr) (range_at i e 0 ?tr) []
        = Completed (map (\<lambda>t. i + of_nat t) [0..<m], cf)" "done_coro cf"
      by (auto simp: m_def)
    moreover have "start promise_type k (range_body ptr) \<lparr>rp_i = i, rp_e = e\<rparr> (coroutine_init \<lparr>m_data = None\<rparr>)
        = Suspended (range_at i e 0 ?tr)"
      unfolding k' by (rule start_range [OF gen_hooks(1) ne])
    ultimately show ?thesis
      by (simp add: consume_def generator_impl_def lift_result_def generator_dtor_def spec)
  qed
  show "(consume2 k (range_body ptr) \<lparr>rp_i = i, rp_e = e\<rparr> :: (32 word list, 'x) run)
           = Completed (range_spec i e)"
  proof (cases "m = 0")
    case True
    then have "i = e" using e by simp
    moreover from True have "range_spec i e = []" by (simp add: spec)
    moreover have "begin2 k (range_body ptr) (generator_impl2 \<lparr>rp_i = e, rp_e = e\<rparr>)
        = Completed \<lparr>m_next = SENTINEL, m_eh = SENTINEL,
            promise = finalize (generator_promise :: (32 word gen_promise, 32 word, 'x) promise_hooks)
              \<lparr>m_data = None\<rparr>,
            m_state = None, m_mem_tmp = None, trace = [EvReturnVoid, EvFinalize] :: (32 word, 'x) event list\<rparr>"
      by (simp add: begin2_def generator_impl2_def fresh_done lift_result_def
          start_range_empty [OF gen_hooks(4)])
    ultimately show ?thesis
      by (simp add: consume2_def range_for_done done_coro_def generator_dtor_def)
  next
    case False
    with offset_inj [of 0 m i] m e have ne: "i \<noteq> e" by simp
    from False k obtain k' where k': "k = Suc k'" by (cases k) (simp_all add: m_def)
    from range_for_from [OF gen_hooks(3) gen_hooks(4) m e, of 0 k ptr ?tr "[]"] False k
    obtain cf where "range_for generator_promise k (range_body ptr) (range_at i e 0 ?tr) []
        = Completed (map (\<lambda>t. i + of_nat t) [0..<m], cf)" "done_coro cf"
      by (auto simp: m_def)
    moreover have "start generator_promise k (range_body ptr) \<lparr>rp_i = i, rp_e = e\<rparr> (coroutine_init \<lparr>m_data = None\<rparr>)
        = Suspended (range_at i e 0 ?tr)"
      unfolding k' by (rule start_range [OF gen_hooks(3) ne])
    ultimately show ?thesis
      by (simp add: consume2_def begin2_def generator_impl2_def fresh_done lift_result_def
          generator_dtor_def spec)
  qed
qed

lemma range_done_timing:
  fixes i e :: "32 word"
  assumes le: "sint i \<le> sint e" and k: "nat (sint e - sint i) \<le> k"
  shows "\<exists>c0 :: (32 word gen_promise, range_params, 32 word, 'x) coroutine.
         generator_impl k (range_body ptr) \<lparr>rp_i = i, rp_e = e\<rparr> = Completed c0
       \<and> (\<forall>t \<le> nat (sint e - sint i).
            \<exists>c. resume_times promise_type k (range_body ptr) t c0 = Completed c
               \<and> (done_coro c \<longleftrightarrow> t = nat (sint e - sint i))
               \<and> (t < nat (sint e - sint i) \<longrightarrow> m_data (promise c) = Some (range_spec i e ! t)))"
proof -
  define m where "m = nat (sint e - sint i)"
  from range_end [OF le] have e: "e = i + of_nat m" and m: "m < 2 ^ 32"
    by (simp_all add: m_def)
  show ?thesis
  proof (cases "m = 0")
    case True
    then have "i = e" using e by simp
    with True show ?thesis
      by (simp add: generator_impl_def lift_result_def done_coro_def m_def
          start_range_empty [OF gen_hooks(2)])
  next
    case False
    with offset_inj [of 0 m i] m e have ne: "i \<noteq> e" by simp
    from False k obtain k' where k': "k = Suc k'" by (cases k) (simp_all add: m_def)
    let ?c0 = "range_at i e 0 [EvYieldValue i] :: (32 word gen_promise, range_params, 32 word, 'x) coroutine"
    have g: "generator_impl k (range_body ptr) \<lparr>rp_i = i, rp_e = e\<rparr> = Completed ?c0"
      by (simp add: generator_impl_def lift_result_def k' start_range [OF gen_hooks(1) ne])
    have "\<exists>c. resume_times promise_type k (range_body ptr) t ?c0 = Completed c
               \<and> (done_coro c \<longleftrightarrow> t = m)
               \<and> (t < m \<longrightarrow> m_data (promise c) = Some (range_spec i e ! t))"
      if t: "t \<le> m" for t
    proof (cases "t = m")
      case True
      from resume_times_range_last [OF gen_hooks(1) gen_hooks(2) m e, of 0 k m ptr
          "[EvYieldValue i] :: (32 word, 'x) event list"]
        False k
      show ?thesis by (auto simp: True m_def)
    next
      case False
      with t have lt: "t < m" by simp
      from resume_times_range [OF gen_hooks(1) m e, of 0 t k ptr
          "[EvYieldValue i] :: (32 word, 'x) event list"] lt k
      obtain tr' where "resume_times promise_type k (range_body ptr) t ?c0
          = Completed (range_at i e t tr')"
        by (auto simp: m_def)
      moreover have "m_data (promise (range_at i e t tr')) = Some (range_spec i e ! t)"
        using range_spec_nth(1) [OF le, of t] lt by (simp add: range_at_def m_def)
      ultimately show ?thesis using False by simp
    qed
    with g show ?thesis by (auto simp: m_def)
  qed
qed

text \<open>
  C9.  For \<open>i \<le> e\<close> (as signed \<^verbatim>\<open>int\<close>s) and fuel for \<open>e - i\<close> iterations, the loop
  \<^verbatim>\<open>for (const auto v : range(i, e))\<close> sees exactly the reference sequence
  \<open>i, ..., e - 1\<close>, with either version of the generator header: \<open>e - i\<close> values, the
  \<open>t\<close>-th being \<open>i + t\<close>, so in increasing order.  After the start and \<open>t\<close> calls of
  \<^verbatim>\<open>resume\<close> the promise holds the \<open>t\<close>-th value and the coroutine is not done, for
  \<open>t < e - i\<close>; it is done after exactly \<open>e - i\<close> calls.
\<close>

theorem range_yields_interval:
  fixes i e :: "32 word"
  assumes le: "sint i \<le> sint e" and k: "nat (sint e - sint i) \<le> k"
  shows "(range k ptr i e :: (32 word list, 'x) run) = Completed (range_spec i e)
     \<and> (range2 k ptr i e :: (32 word list, 'x) run) = Completed (range_spec i e)
     \<and> length (range_spec i e) = nat (sint e - sint i)
     \<and> (\<forall>t < length (range_spec i e). range_spec i e ! t = i + of_nat t
            \<and> sint (range_spec i e ! t) = sint i + int t)
     \<and> (\<exists>c0 :: (32 word gen_promise, range_params, 32 word, 'x) coroutine.
            generator_impl k (range_body ptr) \<lparr>rp_i = i, rp_e = e\<rparr> = Completed c0
          \<and> (\<forall>t \<le> nat (sint e - sint i).
                \<exists>c. resume_times promise_type k (range_body ptr) t c0 = Completed c
                   \<and> (done_coro c \<longleftrightarrow> t = nat (sint e - sint i))
                   \<and> (t < nat (sint e - sint i) \<longrightarrow> m_data (promise c) = Some (range_spec i e ! t))))"
proof -
  have len: "length (range_spec i e) = nat (sint e - sint i)"
    by (simp add: range_spec_as_map)
  have "range_spec i e ! t = i + of_nat t \<and> sint (range_spec i e ! t) = sint i + int t"
    if "t < length (range_spec i e)" for t
    using range_spec_nth [OF le, of t] that len by simp
  with consume_range [OF le k, of ptr] range_done_timing [OF le k, of ptr] len
  show ?thesis
    unfolding range_def range2_def by blast
qed

lemma range_spec_0_3: "range_spec 0 3 = [0, 1, 2]"
  by (simp add: range_spec_def upto.simps)

theorem range_yields_interval_witness:
  "sint (0 :: 32 word) \<le> sint (3 :: 32 word) \<and> nat (sint (3 :: 32 word) - sint (0 :: 32 word)) \<le> 3
   \<and> (range 3 pointer64 0 3 :: (32 word list, unit) run) = Completed [0, 1, 2]
   \<and> (range2 3 pointer64 0 3 :: (32 word list, unit) run) = Completed [0, 1, 2]
   \<and> (\<exists>c0 :: (32 word gen_promise, range_params, 32 word, unit) coroutine.
          generator_impl 3 (range_body pointer64) \<lparr>rp_i = 0, rp_e = 3\<rparr> = Completed c0
          \<and> (\<forall>t \<le> 3.
                \<exists>c. resume_times promise_type 3 (range_body pointer64) t c0 = Completed c
                   \<and> (done_coro c \<longleftrightarrow> t = 3)
                   \<and> (t < 3 \<longrightarrow> m_data (promise c) = Some ([0, 1, 2] ! t))))"
proof -
  have h: "sint (0 :: 32 word) \<le> sint (3 :: 32 word)" "nat (sint (3 :: 32 word) - sint (0 :: 32 word)) \<le> 3"
    by simp_all
  have n: "nat (sint (3 :: 32 word) - sint (0 :: 32 word)) = 3" by simp
  from range_yields_interval [OF h, where ptr = pointer64 and 'x = unit] show ?thesis
    unfolding range_spec_0_3 n using h by blast
qed

section \<open>Where a body suspends, and what \<^verbatim>\<open>destroy\<close> finds there\<close>

text \<open>
  A statement leaves through \<^verbatim>\<open>goto _coz_suspend\<close> only at one of its suspension
  points, with \<^verbatim>\<open>m_next\<close> at the resume label of that point and its temporary alive
  in the scratch buffer.
\<close>

lemma helpers_suspend:
  "yield_suspend P ip e c = GotoSuspend c' \<Longrightarrow> m_next c' = ip \<and> live AtYield c'"
  "yield_lite_suspend P ip e c = GotoSuspend c' \<Longrightarrow> m_next c' = ip \<and> live AtYieldLite c'"
  "await_suspend_or_continue ip f ea c = GotoSuspend c' \<Longrightarrow> m_next c' = ip \<and> live AtAwait c'"
  by (auto simp: yield_suspend_def yield_lite_suspend_def await_suspend_or_continue_def
      call_hook_def live_def try_suspend_def await_case_def Let_def
      split: option.splits prod.splits if_splits occupant.splits bool.splits)

lemma helpers_no_suspend [simp]:
  "run_plain f c \<noteq> GotoSuspend c'"
  "coz_return P t c \<noteq> GotoSuspend c'"
  "yield_resume c \<noteq> GotoSuspend c'"
  "yield_cleanup c \<noteq> GotoSuspend c'"
  "await_case g c \<noteq> GotoSuspend c'"
  "await_cleanup c \<noteq> GotoSuspend c'"
  "run_handler P x h c \<noteq> GotoSuspend c'"
  by (auto simp: run_plain_def coz_return_def yield_resume_def yield_cleanup_def await_case_def
      await_cleanup_def run_handler_def
      split: option.splits prod.splits sum.splits occupant.splits plain_result.splits)

lemma catch_clauses_no_suspend [simp]: "catch_clauses P hs x c \<noteq> GotoSuspend c'"
  by (induction hs) (auto split: if_splits)

lemma coz_catch_no_suspend [simp]: "coz_catch P prev hs ex c \<noteq> GotoSuspend c'"
  by (simp add: coz_catch_def split: option.splits)

lemma suspend_point:
  "exec P k n ceh s md c = GotoSuspend c' \<Longrightarrow>
   \<exists>j kind. (j, kind) \<in> set (suspension_points n s) \<and> m_next c' = of_nat j \<and> live kind c'"
proof (induction P k n ceh s md c arbitrary: c' rule: exec.induct)
  case (3 P k n ceh a b md c)
  then show ?case by (fastforce split: outcome.splits)
next
  case (4 P k n ceh cnd a b c)
  then show ?case by (fastforce split: option.splits if_splits)
next
  case (5 P k n ceh cnd a b l ex c)
  then show ?case by (fastforce split: outcome.splits)
next
  case (6 P n ceh cnd stp b c)
  then show ?case by (simp split: option.splits if_splits)
next
  case (7 P k n ceh cnd stp b c)
  then show ?case by (fastforce split: option.splits if_splits outcome.splits)
next
  case (8 P n ceh cnd stp b l ex c)
  then show ?case by (fastforce split: option.splits if_splits outcome.splits)
next
  case (9 P k n ceh cnd stp b l ex c)
  then show ?case by (fastforce split: outcome.splits)
next
  case (10 P k n ceh sa e c)
  then show ?case using helpers_suspend(1) by fastforce
next
  case (11 P k n ceh sa e l ex c)
  then show ?case by (simp split: if_splits)
next
  case (12 P k n ceh e c)
  then show ?case using helpers_suspend(2) by fastforce
next
  case (13 P k n ceh e l ex c)
  then show ?case by (simp split: if_splits)
next
  case (14 P k n ceh sa f e c)
  then show ?case using helpers_suspend(3) by fastforce
next
  case (15 P k n ceh sa f e l ex c)
  then show ?case by (simp split: if_splits)
next
  case (16 P k n ceh t c)
  then show ?case by (simp split: option.splits)
next
  case (18 P k n ceh b hs c)
  then show ?case by simp
next
  case (19 P k n ceh b hs l ex c)
  then show ?case by (simp split: if_splits)
qed simp_all

lemma of_nat_pc_inj:
  "a < 2 ^ 32 \<Longrightarrow> b < 2 ^ 32 \<Longrightarrow> ((of_nat a :: pc) = of_nat b) = (a = b)"
  by (simp add: word_of_nat_eq_iff take_bit_nat_eq_self)

lemma points_range:
  "(j, kind) \<in> set (suspension_points n s) \<Longrightarrow> n \<le> j \<and> j + 2 \<le> n + counters s"
  by (induction s arbitrary: n) fastforce+

lemma cleanup_live:
  "live AtYield c \<Longrightarrow> yield_cleanup c = GotoFinalize (scrub AtYield c)"
  "live AtAwait c \<Longrightarrow> await_cleanup c = GotoFinalize (scrub AtAwait c)"
  by (auto simp: live_def scrub_def yield_cleanup_def await_cleanup_def
      split: option.splits occupant.splits)

lemma seek_other_range:
  assumes "n' \<le> l" "n + counters s \<le> n'" "l < 2 ^ 32"
  shows "exec P k n ceh s (Seek (of_nat l) ex) c = NoCase"
proof (rule seek_no_label)
  fix j assume "n \<le> j" "j < n + counters s"
  with assms have "j < 2 ^ 32" "j \<noteq> l" by simp_all
  with assms(3) show "(of_nat j :: pc) \<noteq> of_nat l" by (simp add: of_nat_pc_inj)
qed

lemma seek_cleanup:
  "(j, kind) \<in> set (suspension_points n s) \<Longrightarrow> n + counters s \<le> 2 ^ 32 \<Longrightarrow> live kind c \<Longrightarrow>
   exec P k n ceh s (Seek (of_nat (j + 1)) ex) c = GotoFinalize (scrub kind c)"
proof (induction s arbitrary: n k ceh)
  case (Seq a b)
  show ?case
  proof (cases "(j, kind) \<in> set (suspension_points n a)")
    case True
    with Seq show ?thesis by simp
  next
    case False
    with Seq.prems have in_b: "(j, kind) \<in> set (suspension_points (n + counters a) b)" by simp
    from points_range [OF in_b] Seq.prems
    have "exec P k n ceh a (Seek (of_nat (j + 1)) ex) c = NoCase"
      by (intro seek_other_range [where n' = "n + counters a"]) simp_all
    moreover from Seq.IH(2) [OF in_b] Seq.prems
    have "exec P k (n + counters a) ceh b (Seek (of_nat (j + 1)) ex) c = GotoFinalize (scrub kind c)"
      by (simp add: add.assoc)
    ultimately show ?thesis by simp
  qed
next
  case (Cond cnd a b)
  show ?case
  proof (cases "(j, kind) \<in> set (suspension_points n a)")
    case True
    with Cond show ?thesis by simp
  next
    case False
    with Cond.prems have in_b: "(j, kind) \<in> set (suspension_points (n + counters a) b)" by simp
    from points_range [OF in_b] Cond.prems
    have "exec P k n ceh a (Seek (of_nat (j + 1)) ex) c = NoCase"
      by (intro seek_other_range [where n' = "n + counters a"]) simp_all
    moreover from Cond.IH(2) [OF in_b] Cond.prems
    have "exec P k (n + counters a) ceh b (Seek (of_nat (j + 1)) ex) c = GotoFinalize (scrub kind c)"
      by (simp add: add.assoc)
    ultimately show ?thesis by simp
  qed
next
  case (For cnd stp b)
  then have "exec P k n ceh b (Seek (of_nat (j + 1)) ex) c = GotoFinalize (scrub kind c)" by simp
  then show ?case by (cases k) simp_all
next
  case (COZ_YIELD sa e)
  then have "(of_nat (n + 1) :: pc) \<noteq> of_nat n" by (simp add: of_nat_pc_inj)
  with COZ_YIELD show ?case
    by (simp add: cleanup_live)
next
  case (COZ_YIELD_LITE e)
  then have "(of_nat (n + 1) :: pc) \<noteq> of_nat n" by (simp add: of_nat_pc_inj)
  with COZ_YIELD_LITE show ?case by (simp add: scrub_def)
next
  case (COZ_AWAIT_APPLY sa f e)
  then have "(of_nat (n + 1) :: pc) \<noteq> of_nat n" by (simp add: of_nat_pc_inj)
  with COZ_AWAIT_APPLY show ?case
    by (simp add: cleanup_live)
next
  case (COZ_TRY b hs)
  then have in_b: "(j, kind) \<in> set (suspension_points (n + 1) b)" by simp
  from points_range [OF in_b] COZ_TRY.prems
  have "j + 1 < 2 ^ 32" "n < 2 ^ 32" "j + 1 \<noteq> n" by simp_all
  then have "(of_nat (j + 1) :: pc) \<noteq> of_nat n"
    by (simp only: of_nat_pc_inj not_False_eq_True)
  moreover from COZ_TRY.IH [OF in_b] COZ_TRY.prems
  have "exec P k (n + 1) (of_nat n) b (Seek (of_nat (j + 1)) ex) c = GotoFinalize (scrub kind c)"
    by simp
  ultimately show ?case by simp
qed simp_all

lemma suspended_from_dispatch:
  "coz_operator P k body ex c0 = Suspended c \<Longrightarrow>
   \<exists>k' ex' c1. dispatch P k' body ex' c1 = GotoSuspend c"
proof (induction k arbitrary: ex c0)
  case 0
  then show ?case
    by (auto simp: engine_pass_def COZ_END_def catch_all_def unhandled_eq Let_def
        split: outcome.splits sum.splits prod.splits option.splits if_splits)
next
  case (Suc k)
  then show ?case
    by (auto simp: engine_pass_def COZ_END_def catch_all_def unhandled_eq Let_def
        split: outcome.splits sum.splits prod.splits option.splits if_splits)
qed

lemma live_scrub_m_next [simp]:
  "live kind (c\<lparr>m_next := l\<rparr>) = live kind c"
  "scrub kind (c\<lparr>m_next := l\<rparr>) = (scrub kind c)\<lparr>m_next := l\<rparr>"
  by (simp_all add: live_def scrub_def split: susp_kind.splits)

text \<open>
  C3.  A coroutine that \<^verbatim>\<open>start\<close> or \<^verbatim>\<open>resume\<close> left suspended (in a body whose labels
  fit) sits at a suspension point with that point's temporary alive.  \<^verbatim>\<open>destroy\<close>
  moves \<^verbatim>\<open>m_next\<close> to the cleanup label, destroys the temporary (there is none after
  \<^verbatim>\<open>COZ_YIELD_LITE\<close>) and runs the finalizer: the trace grows by the single event
  \<open>EvFinalize\<close>, so no statement of the body and no handler runs, also when the
  suspension point lies in a guarded region.  On a coroutine that is done the
  \<^verbatim>\<open>assert\<close> of \<^verbatim>\<open>destroy\<close> fails.
\<close>

theorem destroy_suspended_coroutine:
  assumes fit: "labels_fit body"
    and susp: "start P k body s0 c0 = Suspended c \<or> resume P k body c0 = Suspended c"
  shows "\<exists>j kind. (j, kind) \<in> set (suspension_points 1 body) \<and> m_next c = of_nat j \<and> live kind c
          \<and> destroy P k' body c = Finished (finalizer P ((scrub kind c)\<lparr>m_next := of_nat (j + 1)\<rparr>))
          \<and> trace (finalizer P ((scrub kind c)\<lparr>m_next := of_nat (j + 1)\<rparr>)) = trace c @ [EvFinalize]
          \<and> m_mem_tmp (finalizer P ((scrub kind c)\<lparr>m_next := of_nat (j + 1)\<rparr>))
              = (if kind = AtYieldLite then m_mem_tmp c else None)
          \<and> (done_coro cd \<longrightarrow> destroy P k' body cd = Aborted AssertFailed)"
proof -
  from susp obtain k1 ex1 c1 where "coz_operator P k1 body ex1 c1 = Suspended c"
    by (auto simp: start_def resume_def invoke_def)
  then obtain k2 ex2 c2 where "dispatch P k2 body ex2 c2 = GotoSuspend c"
    using suspended_from_dispatch by blast
  then obtain md where "exec P k2 1 SENTINEL body md c2 = GotoSuspend c"
    by (auto simp: dispatch_def split: if_splits)
  from suspend_point [OF this]
  obtain j kind where jk: "(j, kind) \<in> set (suspension_points 1 body)" "m_next c = of_nat j"
      "live kind c"
    by blast
  from points_range [OF jk(1)] fit have r: "1 \<le> j" "j + 1 < 2 ^ 32 - 1" "1 + counters body \<le> 2 ^ 32"
    by (simp_all add: labels_fit_def)
  then have "(of_nat j :: pc) \<noteq> SENTINEL" by (intro label_neq_SENTINEL) simp
  with jk have nd: "m_next c \<noteq> SENTINEL" by simp
  have n1: "m_next c + 1 = of_nat (j + 1)" by (simp add: jk)
  from r have "j + 1 < 2 ^ 32" "(0 :: nat) < 2 ^ 32" "j + 1 \<noteq> 0" by simp_all
  then have "(of_nat (j + 1) :: pc) \<noteq> of_nat 0"
    by (simp only: of_nat_pc_inj not_False_eq_True)
  then have n0: "(of_nat (j + 1) :: pc) \<noteq> 0" by simp
  have "exec P k' 1 SENTINEL body (Seek (of_nat (j + 1)) None) (c\<lparr>m_next := of_nat (j + 1)\<rparr>)
      = GotoFinalize (scrub kind (c\<lparr>m_next := of_nat (j + 1)\<rparr>))"
    using jk r by (intro seek_cleanup) simp_all
  with n0 have "engine_pass P k' body None (c\<lparr>m_next := of_nat (j + 1)\<rparr>)
      = Inl (Finished (finalizer P ((scrub kind c)\<lparr>m_next := of_nat (j + 1)\<rparr>)))"
    by (simp add: engine_pass_def dispatch_def)
  then have "destroy P k' body c = Finished (finalizer P ((scrub kind c)\<lparr>m_next := of_nat (j + 1)\<rparr>))"
    using nd by (simp add: destroy_def invoke_def coz_operator_Inl n1)
  moreover have "trace (finalizer P ((scrub kind c)\<lparr>m_next := of_nat (j + 1)\<rparr>)) = trace c @ [EvFinalize]"
    "m_mem_tmp (finalizer P ((scrub kind c)\<lparr>m_next := of_nat (j + 1)\<rparr>))
              = (if kind = AtYieldLite then m_mem_tmp c else None)"
    by (simp_all add: scrub_def split: susp_kind.splits)
  moreover have "done_coro cd \<longrightarrow> destroy P k' body cd = Aborted AssertFailed"
    by (simp add: destroy_def done_coro_def)
  ultimately show ?thesis using jk by blast
qed

theorem destroy_suspended_coroutine_witness:
  "labels_fit guarded_yield
   \<and> start unit_promise 0 guarded_yield () fresh = Suspended yielded_in_region
   \<and> destroy unit_promise 0 guarded_yield yielded_in_region
       = Finished \<lparr>m_next = 3, m_eh = 1, promise = \<lparr>m_data = Some ()\<rparr>, m_state = None,
           m_mem_tmp = None, trace = [EvYieldValue (), EvFinalize]\<rparr>
   \<and> done_coro fresh \<and> destroy unit_promise 0 guarded_yield fresh = Aborted AssertFailed"
proof -
  have f: "labels_fit guarded_yield"
    by (simp add: labels_fit_def guarded_yield_def yielding_def)
  have s: "start unit_promise 0 guarded_yield () fresh = Suspended yielded_in_region"
    by (simp add: guarded_yield_def yielding_def yielded_in_region_def instance_defs engine_defs
        yield_suspend_def)
  have d: "done_coro fresh"
    by (simp add: done_coro_def instance_defs)
  from destroy_suspended_coroutine [OF f disjI1 [OF s], where k' = 0 and cd = fresh] d
  obtain j kind where jk: "(j, kind) \<in> set (suspension_points 1 guarded_yield)"
    and dest: "destroy unit_promise 0 guarded_yield yielded_in_region
        = Finished (finalizer unit_promise ((scrub kind yielded_in_region)\<lparr>m_next := of_nat (j + 1)\<rparr>))"
    and ab: "destroy unit_promise 0 guarded_yield fresh = Aborted AssertFailed"
    by blast
  from jk have "j = 2" "kind = AtYield"
    by (simp_all add: guarded_yield_def yielding_def)
  with dest have "destroy unit_promise 0 guarded_yield yielded_in_region
       = Finished \<lparr>m_next = 3, m_eh = 1, promise = \<lparr>m_data = Some ()\<rparr>, m_state = None,
           m_mem_tmp = None, trace = [EvYieldValue (), EvFinalize]\<rparr>"
    by (simp add: scrub_def yielded_in_region_def finalizer_def emit_def unit_promise_def promise_type_def)
  with f s d ab show ?thesis by blast
qed

section \<open>What a run of the body preserves\<close>

text \<open>
  Facts about \<open>exec\<close> by induction over the body: a \<^verbatim>\<open>switch\<close> finds the label of every
  handler and suspension point; \<^verbatim>\<open>m_eh\<close> is \<^verbatim>\<open>SENTINEL\<close> or a handler label of the body;
  the closure stays alive; and \<^verbatim>\<open>_coz_finalize\<close> is reached with \<^verbatim>\<open>m_next == SENTINEL\<close>
  unless the \<^verbatim>\<open>switch\<close> jumped to a cleanup label.
\<close>

lemma helpers_no_nocase [simp]:
  "run_plain f c \<noteq> NoCase"
  "coz_return P t c \<noteq> NoCase"
  "yield_suspend P ip e c \<noteq> NoCase"
  "yield_lite_suspend P ip e c \<noteq> NoCase"
  "await_case g c \<noteq> NoCase"
  "await_suspend_or_continue ip g ea c \<noteq> NoCase"
  "run_handler P x h c \<noteq> NoCase"
  by (auto simp: run_plain_def coz_return_def yield_suspend_def yield_lite_suspend_def await_case_def
      await_suspend_or_continue_def run_handler_def call_hook_def
      split: option.splits prod.splits sum.splits occupant.splits plain_result.splits bool.splits)

lemma catch_clauses_no_nocase [simp]: "catch_clauses P hs x c \<noteq> NoCase"
  by (induction hs) (auto split: if_splits)

lemma run_never_nocase:
  "md = Run \<Longrightarrow> exec P k n ceh s md c \<noteq> NoCase"
  by (induction P k n ceh s md c rule: exec.induct)
     (auto split: outcome.splits option.splits if_splits)

lemma try_label_found:
  "j \<in> set (try_ordinals n s) \<Longrightarrow> exec P k n ceh s (Seek (of_nat j) ex) c \<noteq> NoCase"
proof (induction s arbitrary: n k ceh)
  case (Seq a b)
  then show ?case
    using run_never_nocase [of Run P k "n + counters a" ceh b]
    by (auto split: outcome.splits)
next
  case (Cond cnd a b)
  then show ?case by (auto split: outcome.splits)
next
  case (For cnd stp b)
  then have "exec P k n ceh b (Seek (of_nat j) ex) c \<noteq> NoCase" by simp
  then show ?case
    using run_never_nocase [of Run P "k - 1" n ceh "For cnd stp b"]
    by (cases k) (auto split: outcome.splits option.splits if_splits)
next
  case (COZ_TRY b hs)
  then show ?case by (auto simp: coz_catch_def split: option.splits)
qed simp_all

lemma helpers_m_eh:
  "reached (run_plain f c) = Some c' \<Longrightarrow> m_eh c' = m_eh c"
  "reached (coz_return P t c) = Some c' \<Longrightarrow> m_eh c' = m_eh c"
  "reached (yield_suspend P ip e c) = Some c' \<Longrightarrow> m_eh c' = m_eh c"
  "reached (yield_lite_suspend P ip e c) = Some c' \<Longrightarrow> m_eh c' = m_eh c"
  "reached (yield_resume c) = Some c' \<Longrightarrow> m_eh c' = m_eh c"
  "reached (yield_cleanup c) = Some c' \<Longrightarrow> m_eh c' = m_eh c"
  "reached (await_case g c) = Some c' \<Longrightarrow> m_eh c' = m_eh c"
  "reached (await_suspend_or_continue ip g ea c) = Some c' \<Longrightarrow> m_eh c' = m_eh c"
  "reached (await_cleanup c) = Some c' \<Longrightarrow> m_eh c' = m_eh c"
  "reached (run_handler P x h c) = Some c' \<Longrightarrow> m_eh c' = m_eh c"
  by (auto simp: reached_def run_plain_def coz_return_def z_COZ_RETURN_def explicit_return_def
      yield_suspend_def yield_lite_suspend_def
      yield_resume_def yield_cleanup_def await_case_def await_suspend_or_continue_def
      await_cleanup_def run_handler_def call_hook_def try_suspend_def Let_def
      split: option.splits prod.splits sum.splits occupant.splits plain_result.splits bool.splits
        if_splits ret_arg.splits)

lemma catch_clauses_m_eh:
  "reached (catch_clauses P hs x c) = Some c' \<Longrightarrow> m_eh c' = m_eh c"
  by (induction hs) (auto simp: helpers_m_eh reached_def split: if_splits)

lemma coz_catch_m_eh:
  "reached (coz_catch P prev hs ex c) = Some c' \<Longrightarrow> m_eh c' = prev"
proof (cases ex)
  case None
  then show "reached (coz_catch P prev hs ex c) = Some c' \<Longrightarrow> m_eh c' = prev"
    by (simp add: coz_catch_def reached_def)
next
  case (Some x)
  assume "reached (coz_catch P prev hs ex c) = Some c'"
  with Some have "reached (catch_clauses P hs x (c\<lparr>m_eh := prev\<rparr>)) = Some c'"
    by (simp add: coz_catch_def)
  from catch_clauses_m_eh [OF this] show "m_eh c' = prev" by simp
qed

lemma reached_simps [simp]:
  "reached (Continue c) = Some c" "reached (GotoSuspend c) = Some c"
  "reached (GotoFinalize c) = Some c" "reached (Thrown x c) = Some c"
  "reached NoCase = None" "reached (Fatal f) = None" "reached OutOfFuel = None"
  by (simp_all add: reached_def)

lemma m_eh_stays:
  "reached (exec P k n ceh s md c) = Some c' \<Longrightarrow> m_eh c \<in> A \<Longrightarrow> ceh \<in> A \<Longrightarrow>
   of_nat ` set (try_ordinals n s) \<subseteq> A \<Longrightarrow> m_eh c' \<in> A"
proof (induction P k n ceh s md c arbitrary: c' rule: exec.induct)
  case (1 P k n ceh f c)
  then show ?case by (auto dest: helpers_m_eh)
next
  case (3 P k n ceh a b md c)
  then show ?case by (auto simp: image_Un split: outcome.splits)
next
  case (4 P k n ceh cnd a b c)
  then show ?case by (auto simp: image_Un split: option.splits if_splits)
next
  case (5 P k n ceh cnd a b l ex c)
  then show ?case by (auto simp: image_Un split: outcome.splits)
next
  case (6 P n ceh cnd stp b c)
  then show ?case by (auto split: option.splits if_splits)
next
  case (7 P k n ceh cnd stp b c)
  then show ?case by (auto simp: for_step_def split: option.splits if_splits outcome.splits)
next
  case (8 P n ceh cnd stp b l ex c)
  then show ?case by (auto simp: for_step_def split: option.splits if_splits outcome.splits)
next
  case (9 P k n ceh cnd stp b l ex c)
  then show ?case by (auto simp: for_step_def split: outcome.splits)
next
  case (10 P k n ceh sa e c)
  then show ?case by (auto dest: helpers_m_eh)
next
  case (11 P k n ceh sa e l ex c)
  then show ?case by (auto dest: helpers_m_eh split: if_splits)
next
  case (12 P k n ceh e c)
  then show ?case by (auto dest: helpers_m_eh)
next
  case (13 P k n ceh e l ex c)
  then show ?case by (auto split: if_splits)
next
  case (14 P k n ceh sa f e c)
  then show ?case by (auto dest: helpers_m_eh)
next
  case (15 P k n ceh sa f e l ex c)
  then show ?case by (auto dest: helpers_m_eh split: if_splits)
next
  case (16 P k n ceh t c)
  then show ?case by (auto dest: helpers_m_eh split: option.splits)
next
  case (18 P k n ceh b hs c)
  then show ?case by auto
next
  case (19 P k n ceh b hs l ex c)
  then show ?case by (auto dest: coz_catch_m_eh split: if_splits)
qed simp_all

lemma run_plain_no_finalize [simp]: "run_plain f c \<noteq> GotoFinalize c'"
  by (auto simp: run_plain_def split: option.splits prod.splits)

lemma helpers_finalize:
  "coz_return P t c = GotoFinalize c' \<Longrightarrow> m_next c' = SENTINEL"
  "run_handler P x h c = GotoFinalize c' \<Longrightarrow> m_next c' = SENTINEL"
  by (auto simp: coz_return_def z_COZ_RETURN_def explicit_return_def run_plain_def run_handler_def
      call_hook_def
      split: option.splits prod.splits sum.splits plain_result.splits ret_arg.splits)

lemma catch_clauses_finalize:
  "catch_clauses P hs x c = GotoFinalize c' \<Longrightarrow> m_next c' = SENTINEL"
  by (induction hs) (auto dest: helpers_finalize split: if_splits)

lemma coz_catch_finalize:
  "coz_catch P prev hs ex c = GotoFinalize c' \<Longrightarrow> m_next c' = SENTINEL"
  by (auto simp: coz_catch_def dest: catch_clauses_finalize split: option.splits)

lemma avoids_cleanup_simps [simp]:
  "avoids_cleanup n (Seq a b) md = (avoids_cleanup n a md \<and> avoids_cleanup (n + counters a) b md)"
  "avoids_cleanup n (Cond cnd a b) md = (avoids_cleanup n a md \<and> avoids_cleanup (n + counters a) b md)"
  "avoids_cleanup n (For cnd stp b) md = avoids_cleanup n b md"
  "avoids_cleanup n (COZ_TRY b hs) md = avoids_cleanup (n + 1) b md"
  by (cases md; auto)+

lemma helpers_no_finalize [simp]:
  "yield_suspend P ip e c \<noteq> GotoFinalize c'"
  "yield_lite_suspend P ip e c \<noteq> GotoFinalize c'"
  "yield_resume c \<noteq> GotoFinalize c'"
  "await_case g c \<noteq> GotoFinalize c'"
  "await_suspend_or_continue ip g ea c \<noteq> GotoFinalize c'"
  by (auto simp: yield_suspend_def yield_lite_suspend_def yield_resume_def await_case_def
      await_suspend_or_continue_def call_hook_def try_suspend_def Let_def
      split: option.splits prod.splits occupant.splits bool.splits if_splits)

lemma finalize_sentinel:
  "exec P k n ceh s md c = GotoFinalize c' \<Longrightarrow> avoids_cleanup n s md \<Longrightarrow> m_next c' = SENTINEL"
proof (induction P k n ceh s md c arbitrary: c' rule: exec.induct)
  case (1 P k n ceh f c)
  then show ?case by simp
next
  case (3 P k n ceh a b md c)
  from "3.prems"(2) have na: "avoids_cleanup n a md"
    and nb: "avoids_cleanup (n + counters a) b md" by simp_all
  show ?case
  proof (cases "exec P k n ceh a md c")
    case (Continue c1)
    with "3.prems"(1) have "exec P k (n + counters a) ceh b Run c1 = GotoFinalize c'" by simp
    then show ?thesis by (rule "3.IH"(2) [OF Continue]) simp
  next
    case NoCase
    with "3.prems"(1) have "exec P k (n + counters a) ceh b md c = GotoFinalize c'" by simp
    then show ?thesis by (rule "3.IH"(3) [OF NoCase _ nb])
  next
    case (GotoFinalize c1)
    with "3.prems"(1) have "exec P k n ceh a md c = GotoFinalize c'" by simp
    then show ?thesis by (rule "3.IH"(1) [OF _ na])
  qed (use "3.prems"(1) in simp_all)
next
  case (4 P k n ceh cnd a b c)
  from "4.prems"(1) obtain s where s: "m_state c = Some s"
    by (cases "m_state c") simp_all
  show ?case
  proof (cases "cnd s")
    case True
    with "4.prems"(1) s have "exec P k n ceh a Run c = GotoFinalize c'" by simp
    then show ?thesis by (rule "4.IH"(1) [OF s True]) simp
  next
    case False
    with "4.prems"(1) s have "exec P k (n + counters a) ceh b Run c = GotoFinalize c'" by simp
    then show ?thesis by (rule "4.IH"(2) [OF s False]) simp
  qed
next
  case (5 P k n ceh cnd a b l ex c)
  from "5.prems"(2) have na: "avoids_cleanup n a (Seek l ex)"
    and nb: "avoids_cleanup (n + counters a) b (Seek l ex)" by simp_all
  show ?case
  proof (cases "exec P k n ceh a (Seek l ex) c")
    case NoCase
    with "5.prems"(1) have "exec P k (n + counters a) ceh b (Seek l ex) c = GotoFinalize c'" by simp
    then show ?thesis by (rule "5.IH"(2) [OF NoCase _ nb])
  next
    case (GotoFinalize c1)
    with "5.prems"(1) have "exec P k n ceh a (Seek l ex) c = GotoFinalize c'" by simp
    then show ?thesis by (rule "5.IH"(1) [OF _ na])
  qed (use "5.prems"(1) in simp_all)
next
  case (6 P n ceh cnd stp b c)
  then show ?case by (cases "m_state c") (simp_all split: if_splits)
next
  case (7 P k n ceh cnd stp b c)
  from "7.prems"(1) obtain s where s: "m_state c = Some s"
    by (cases "m_state c") simp_all
  from "7.prems"(1) s have t: "cnd s" by (simp split: if_splits)
  show ?case
  proof (cases "exec P (Suc k) n ceh b Run c")
    case (Continue c1)
    with "7.prems"(1) s t
    have "exec P k n ceh (For cnd stp b) Run (for_step stp c1) = GotoFinalize c'" by simp
    then show ?thesis by (rule "7.IH"(2) [OF s t Continue]) simp
  next
    case (GotoFinalize c1)
    with "7.prems"(1) s t have "exec P (Suc k) n ceh b Run c = GotoFinalize c'" by simp
    then show ?thesis by (rule "7.IH"(1) [OF s t]) simp
  qed (use "7.prems"(1) s t in simp_all)
next
  case (8 P n ceh cnd stp b l ex c)
  from "8.prems"(2) have nb: "avoids_cleanup n b (Seek l ex)" by simp
  show ?case
  proof (cases "exec P 0 n ceh b (Seek l ex) c")
    case (GotoFinalize c1)
    with "8.prems"(1) have "exec P 0 n ceh b (Seek l ex) c = GotoFinalize c'" by simp
    then show ?thesis by (rule "8.IH" [OF _ nb])
  qed (use "8.prems"(1) in \<open>simp_all split: option.splits if_splits\<close>)
next
  case (9 P k n ceh cnd stp b l ex c)
  from "9.prems"(2) have nb: "avoids_cleanup n b (Seek l ex)" by simp
  show ?case
  proof (cases "exec P (Suc k) n ceh b (Seek l ex) c")
    case (Continue c1)
    with "9.prems"(1)
    have "exec P k n ceh (For cnd stp b) Run (for_step stp c1) = GotoFinalize c'" by simp
    then show ?thesis by (rule "9.IH"(2) [OF Continue]) simp
  next
    case (GotoFinalize c1)
    with "9.prems"(1) have "exec P (Suc k) n ceh b (Seek l ex) c = GotoFinalize c'" by simp
    then show ?thesis by (rule "9.IH"(1) [OF _ nb])
  qed (use "9.prems"(1) in simp_all)
next
  case (11 P k n ceh sa e l ex c)
  then show ?case by (simp split: if_splits)
next
  case (13 P k n ceh e l ex c)
  then show ?case by (simp split: if_splits)
next
  case (15 P k n ceh sa f e l ex c)
  then show ?case by (simp split: if_splits)
next
  case (16 P k n ceh t c)
  then show ?case by (cases "m_state c") (simp_all add: helpers_finalize)
next
  case (18 P k n ceh b hs c)
  from "18.prems"(1) have "exec P k (n + 1) (of_nat n) b Run (c\<lparr>m_eh := of_nat n\<rparr>) = GotoFinalize c'"
    by simp
  then show ?case by (rule "18.IH") simp
next
  case (19 P k n ceh b hs l ex c)
  from "19.prems"(2) have nb: "avoids_cleanup (n + 1) b (Seek l ex)" by simp
  show ?case
  proof (cases "l = of_nat n")
    case True
    with "19.prems"(1) show ?thesis by (simp add: coz_catch_finalize)
  next
    case False
    with "19.prems"(1) have "exec P k (n + 1) (of_nat n) b (Seek l ex) c = GotoFinalize c'" by simp
    then show ?thesis by (rule "19.IH" [OF False _ nb])
  qed
qed simp_all

lemma no_points_avoid: "suspension_points n s = [] \<Longrightarrow> avoids_cleanup n s md"
  by (cases md) simp_all

lemma finalize_has_sentinel:
  "exec P k n ceh s md c = GotoFinalize c' \<Longrightarrow> suspension_points n s = [] \<Longrightarrow> m_next c' = SENTINEL"
  using finalize_sentinel [of P k n ceh s md c c'] no_points_avoid [of n s md] by blast

lemma no_points_no_suspend:
  "suspension_points n s = [] \<Longrightarrow> exec P k n ceh s md c \<noteq> GotoSuspend c'"
  using suspend_point [of P k n ceh s md c c'] by auto

lemma no_points_no_registrations:
  "suspension_points n s = [] \<Longrightarrow> registrations s = []"
  by (induction s arbitrary: n) auto

lemma helpers_fuel [simp]:
  "run_plain f c \<noteq> OutOfFuel"
  "coz_return P t c \<noteq> OutOfFuel"
  "yield_suspend P ip e c \<noteq> OutOfFuel"
  "yield_lite_suspend P ip e c \<noteq> OutOfFuel"
  "yield_resume c \<noteq> OutOfFuel"
  "yield_cleanup c \<noteq> OutOfFuel"
  "await_case g c \<noteq> OutOfFuel"
  "await_suspend_or_continue ip g ea c \<noteq> OutOfFuel"
  "await_cleanup c \<noteq> OutOfFuel"
  by (auto simp: run_plain_def coz_return_def yield_suspend_def yield_lite_suspend_def
      yield_resume_def yield_cleanup_def await_case_def await_suspend_or_continue_def
      await_cleanup_def call_hook_def
      split: option.splits prod.splits sum.splits occupant.splits bool.splits)

lemma unhandled_not_diverged [simp]: "unhandled P x c \<noteq> Diverged"
  by (simp add: unhandled_eq split: prod.splits option.splits)

lemma helpers_m_state:
  "reached (run_plain f c) = Some c' \<Longrightarrow> m_state c' \<noteq> None"
  "reached (coz_return P t c) = Some c' \<Longrightarrow> m_state c' = m_state c"
  "reached (yield_suspend P ip e c) = Some c' \<Longrightarrow> m_state c' = m_state c"
  "reached (yield_lite_suspend P ip e c) = Some c' \<Longrightarrow> m_state c' = m_state c"
  "reached (yield_resume c) = Some c' \<Longrightarrow> m_state c' = m_state c"
  "reached (yield_cleanup c) = Some c' \<Longrightarrow> m_state c' = m_state c"
  "reached (await_case g c) = Some c' \<Longrightarrow> m_state c' \<noteq> None"
  "reached (await_suspend_or_continue ip g ea c) = Some c' \<Longrightarrow> m_state c' \<noteq> None"
  "reached (await_cleanup c) = Some c' \<Longrightarrow> m_state c' = m_state c"
  "reached (run_handler P x h c) = Some c' \<Longrightarrow> m_state c' \<noteq> None"
  by (auto simp: reached_def run_plain_def coz_return_def z_COZ_RETURN_def explicit_return_def
      yield_suspend_def yield_lite_suspend_def
      yield_resume_def yield_cleanup_def await_case_def await_suspend_or_continue_def
      await_cleanup_def run_handler_def call_hook_def try_suspend_def Let_def emit_def
      split: option.splits prod.splits sum.splits occupant.splits plain_result.splits bool.splits
        if_splits ret_arg.splits)

lemma catch_clauses_m_state:
  "reached (catch_clauses P hs x c) = Some c' \<Longrightarrow> m_state c \<noteq> None \<Longrightarrow> m_state c' \<noteq> None"
  by (induction hs) (auto dest: helpers_m_state(10) split: if_splits)

lemma coz_catch_m_state:
  "reached (coz_catch P prev hs ex c) = Some c' \<Longrightarrow> m_state c \<noteq> None \<Longrightarrow> m_state c' \<noteq> None"
proof (cases ex)
  case None
  then show "reached (coz_catch P prev hs ex c) = Some c' \<Longrightarrow> m_state c' \<noteq> None"
    by (simp add: coz_catch_def)
next
  case (Some x)
  assume "reached (coz_catch P prev hs ex c) = Some c'" and s: "m_state c \<noteq> None"
  with Some have "reached (catch_clauses P hs x (c\<lparr>m_eh := prev\<rparr>)) = Some c'"
    by (simp add: coz_catch_def)
  from catch_clauses_m_state [OF this] s show "m_state c' \<noteq> None" by simp
qed

lemma m_state_stays:
  "reached (exec P k n ceh s md c) = Some c' \<Longrightarrow> m_state c \<noteq> None \<Longrightarrow> m_state c' \<noteq> None"
proof (induction P k n ceh s md c arbitrary: c' rule: exec.induct)
  case (1 P k n ceh f c)
  then show ?case by (auto dest: helpers_m_state)
next
  case (3 P k n ceh a b md c)
  then show ?case by (auto split: outcome.splits)
next
  case (4 P k n ceh cnd a b c)
  then show ?case by (auto split: option.splits if_splits)
next
  case (5 P k n ceh cnd a b l ex c)
  then show ?case by (auto split: outcome.splits)
next
  case (6 P n ceh cnd stp b c)
  then show ?case by (auto split: option.splits if_splits)
next
  case (7 P k n ceh cnd stp b c)
  then show ?case by (auto simp: for_step_def split: option.splits if_splits outcome.splits)
next
  case (8 P n ceh cnd stp b l ex c)
  then show ?case by (auto simp: for_step_def split: option.splits if_splits outcome.splits)
next
  case (9 P k n ceh cnd stp b l ex c)
  then show ?case by (auto simp: for_step_def split: outcome.splits)
next
  case (10 P k n ceh sa e c)
  then show ?case by (auto dest: helpers_m_state)
next
  case (11 P k n ceh sa e l ex c)
  then show ?case by (auto dest: helpers_m_state split: if_splits)
next
  case (12 P k n ceh e c)
  then show ?case by (auto dest: helpers_m_state)
next
  case (13 P k n ceh e l ex c)
  then show ?case by (auto split: if_splits)
next
  case (14 P k n ceh sa f e c)
  then show ?case by (auto dest: helpers_m_state)
next
  case (15 P k n ceh sa f e l ex c)
  then show ?case by (auto dest: helpers_m_state split: if_splits)
next
  case (16 P k n ceh t c)
  then show ?case by (auto dest: helpers_m_state split: option.splits)
next
  case (18 P k n ceh b hs c)
  then show ?case by auto
next
  case (19 P k n ceh b hs l ex c)
  then show ?case by (auto dest: coz_catch_m_state split: if_splits)
qed simp_all

lemma helpers_fatal:
  "run_plain f c = Fatal ft \<Longrightarrow> m_state c \<noteq> None \<Longrightarrow> lacks_return_hook P ft"
  "coz_return P t c = Fatal ft \<Longrightarrow> lacks_return_hook P ft"
  "run_handler P x h c = Fatal ft \<Longrightarrow> m_state c \<noteq> None \<Longrightarrow> lacks_return_hook P ft"
  by (auto simp: run_plain_def coz_return_def z_COZ_RETURN_def explicit_return_def run_handler_def
      call_hook_def lacks_return_hook_def
      split: option.splits prod.splits sum.splits plain_result.splits ret_arg.splits)

lemma catch_clauses_fatal:
  "catch_clauses P hs x c = Fatal ft \<Longrightarrow> m_state c \<noteq> None \<Longrightarrow> lacks_return_hook P ft"
proof (induction hs)
  case Nil
  then show ?case by simp
next
  case (Cons mh hs)
  obtain m h where mh: "mh = (m, h)" by (cases mh)
  show ?case
  proof (cases "m x")
    case True
    with Cons.prems(1) mh have "run_handler P x (h x) c = Fatal ft" by simp
    from helpers_fatal(3) [OF this Cons.prems(2)] show ?thesis .
  next
    case False
    with Cons.prems(1) mh have "catch_clauses P hs x c = Fatal ft" by simp
    from Cons.IH [OF this Cons.prems(2)] show ?thesis .
  qed
qed

lemma coz_catch_fatal:
  "coz_catch P prev hs ex c = Fatal ft \<Longrightarrow> m_state c \<noteq> None \<Longrightarrow> ex \<noteq> None \<Longrightarrow>
   lacks_return_hook P ft"
  using catch_clauses_fatal [of P hs _ "c\<lparr>m_eh := prev\<rparr>" ft]
  by (auto simp: coz_catch_def split: option.splits)

lemma fatal_lacks_hook:
  "exec P k n ceh s md c = Fatal ft \<Longrightarrow> suspension_points n s = [] \<Longrightarrow> m_state c \<noteq> None \<Longrightarrow>
   carries md \<Longrightarrow> lacks_return_hook P ft"
proof (induction P k n ceh s md c arbitrary: ft rule: exec.induct)
  case (1 P k n ceh f c)
  then show ?case by (simp add: helpers_fatal(1))
next
  case (3 P k n ceh a b md c)
  from "3.prems"(2) have na: "suspension_points n a = []"
    and nb: "suspension_points (n + counters a) b = []" by simp_all
  show ?case
  proof (cases "exec P k n ceh a md c")
    case (Continue c1)
    then have "reached (exec P k n ceh a md c) = Some c1" by simp
    from m_state_stays [OF this "3.prems"(3)] have s1: "m_state c1 \<noteq> None" .
    from Continue "3.prems"(1) have "exec P k (n + counters a) ceh b Run c1 = Fatal ft" by simp
    then show ?thesis by (rule "3.IH"(2) [OF Continue _ nb s1]) simp
  next
    case NoCase
    with "3.prems"(1) have "exec P k (n + counters a) ceh b md c = Fatal ft" by simp
    then show ?thesis by (rule "3.IH"(3) [OF NoCase _ nb "3.prems"(3,4)])
  next
    case (Fatal f1)
    with "3.prems"(1) have "exec P k n ceh a md c = Fatal ft" by simp
    then show ?thesis by (rule "3.IH"(1) [OF _ na "3.prems"(3,4)])
  qed (use "3.prems"(1) in simp_all)
next
  case (4 P k n ceh cnd a b c)
  from "4.prems"(2) have na: "suspension_points n a = []"
    and nb: "suspension_points (n + counters a) b = []" by simp_all
  from "4.prems"(3) obtain s where s: "m_state c = Some s" by auto
  show ?case
  proof (cases "cnd s")
    case True
    with "4.prems"(1) s have "exec P k n ceh a Run c = Fatal ft" by simp
    then show ?thesis by (rule "4.IH"(1) [OF s True _ na "4.prems"(3,4)])
  next
    case False
    with "4.prems"(1) s have "exec P k (n + counters a) ceh b Run c = Fatal ft" by simp
    then show ?thesis by (rule "4.IH"(2) [OF s False _ nb "4.prems"(3,4)])
  qed
next
  case (5 P k n ceh cnd a b l ex c)
  from "5.prems"(2) have na: "suspension_points n a = []"
    and nb: "suspension_points (n + counters a) b = []" by simp_all
  show ?case
  proof (cases "exec P k n ceh a (Seek l ex) c")
    case NoCase
    with "5.prems"(1) have "exec P k (n + counters a) ceh b (Seek l ex) c = Fatal ft" by simp
    then show ?thesis by (rule "5.IH"(2) [OF NoCase _ nb "5.prems"(3,4)])
  next
    case (Fatal f1)
    with "5.prems"(1) have "exec P k n ceh a (Seek l ex) c = Fatal ft" by simp
    then show ?thesis by (rule "5.IH"(1) [OF _ na "5.prems"(3,4)])
  qed (use "5.prems"(1) in simp_all)
next
  case (6 P n ceh cnd stp b c)
  then show ?case by (cases "m_state c") (simp_all split: if_splits)
next
  case (7 P k n ceh cnd stp b c)
  from "7.prems"(2) have nb: "suspension_points n b = []" by simp
  from "7.prems"(3) obtain s where s: "m_state c = Some s" by auto
  from "7.prems"(1) s have t: "cnd s" by (simp split: if_splits)
  show ?case
  proof (cases "exec P (Suc k) n ceh b Run c")
    case (Continue c1)
    then have "reached (exec P (Suc k) n ceh b Run c) = Some c1" by simp
    from m_state_stays [OF this "7.prems"(3)] have s1: "m_state (for_step stp c1) \<noteq> None"
      by (auto simp: for_step_def)
    from Continue "7.prems"(1) s t
    have "exec P k n ceh (For cnd stp b) Run (for_step stp c1) = Fatal ft" by simp
    then show ?thesis by (rule "7.IH"(2) [OF s t Continue _ "7.prems"(2) s1 "7.prems"(4)])
  next
    case (Fatal f1)
    with "7.prems"(1) s t have "exec P (Suc k) n ceh b Run c = Fatal ft" by simp
    then show ?thesis by (rule "7.IH"(1) [OF s t _ nb "7.prems"(3,4)])
  qed (use "7.prems"(1) s t in simp_all)
next
  case (8 P n ceh cnd stp b l ex c)
  from "8.prems"(2) have nb: "suspension_points n b = []" by simp
  show ?case
  proof (cases "exec P 0 n ceh b (Seek l ex) c")
    case (Continue c1)
    then have "reached (exec P 0 n ceh b (Seek l ex) c) = Some c1" by simp
    from m_state_stays [OF this "8.prems"(3)] have "m_state (for_step stp c1) \<noteq> None"
      by (auto simp: for_step_def)
    with Continue "8.prems"(1) show ?thesis by (auto split: option.splits if_splits)
  next
    case (Fatal f1)
    with "8.prems"(1) have "exec P 0 n ceh b (Seek l ex) c = Fatal ft" by simp
    then show ?thesis by (rule "8.IH" [OF _ nb "8.prems"(3,4)])
  qed (use "8.prems"(1) in simp_all)
next
  case (9 P k n ceh cnd stp b l ex c)
  from "9.prems"(2) have nb: "suspension_points n b = []" by simp
  show ?case
  proof (cases "exec P (Suc k) n ceh b (Seek l ex) c")
    case (Continue c1)
    then have "reached (exec P (Suc k) n ceh b (Seek l ex) c) = Some c1" by simp
    from m_state_stays [OF this "9.prems"(3)] have s1: "m_state (for_step stp c1) \<noteq> None"
      by (auto simp: for_step_def)
    from Continue "9.prems"(1)
    have "exec P k n ceh (For cnd stp b) Run (for_step stp c1) = Fatal ft" by simp
    then show ?thesis by (rule "9.IH"(2) [OF Continue _ "9.prems"(2) s1]) simp
  next
    case (Fatal f1)
    with "9.prems"(1) have "exec P (Suc k) n ceh b (Seek l ex) c = Fatal ft" by simp
    then show ?thesis by (rule "9.IH"(1) [OF _ nb "9.prems"(3,4)])
  qed (use "9.prems"(1) in simp_all)
next
  case (16 P k n ceh t c)
  then show ?case by (cases "m_state c") (simp_all add: helpers_fatal(2))
next
  case (18 P k n ceh b hs c)
  from "18.prems"(2) have nb: "suspension_points (n + 1) b = []" by simp
  from "18.prems"(1) have "exec P k (n + 1) (of_nat n) b Run (c\<lparr>m_eh := of_nat n\<rparr>) = Fatal ft"
    by simp
  then show ?case by (rule "18.IH" [OF _ nb]) (use "18.prems"(3) in simp_all)
next
  case (19 P k n ceh b hs l ex c)
  from "19.prems"(2) have nb: "suspension_points (n + 1) b = []" by simp
  show ?case
  proof (cases "l = of_nat n")
    case True
    with "19.prems"(1) have "coz_catch P ceh hs ex c = Fatal ft" by simp
    from coz_catch_fatal [OF this "19.prems"(3)] "19.prems"(4) show ?thesis by simp
  next
    case False
    with "19.prems"(1) have "exec P k (n + 1) (of_nat n) b (Seek l ex) c = Fatal ft" by simp
    then show ?thesis by (rule "19.IH" [OF False _ nb "19.prems"(3,4)])
  qed
qed simp_all

section \<open>The retry loop ends\<close>

text \<open>
  In a body without loops every retry jumps to a handler with fewer retries left:
  entering a handler stores the label of the enclosing region in \<^verbatim>\<open>m_eh\<close>, and the code
  after it can only store labels of regions that begin later.
\<close>

lemma try_range:
  "j \<in> set (try_ordinals n s) \<Longrightarrow> n \<le> j \<and> j < n + counters s"
  by (induction s arbitrary: n) fastforce+

lemma retries_pos:
  "j \<in> set (try_ordinals n s) \<Longrightarrow> 1 \<le> retries_left n s j"
proof (induction s arbitrary: n)
  case (Seq a b)
  then show ?case using try_range [of j n a] try_range [of j "n + counters a" b] by fastforce
next
  case (Cond cnd a b)
  then show ?case using try_range [of j n a] try_range [of j "n + counters a" b] by fastforce
qed auto

lemma retries_le:
  "j \<in> set (try_ordinals n s) \<Longrightarrow> retries_left n s j \<le> length (try_ordinals n s)"
proof (induction s arbitrary: n)
  case (Seq a b)
  then show ?case using try_range [of j n a] try_range [of j "n + counters a" b] by fastforce
next
  case (Cond cnd a b)
  then show ?case using try_range [of j n a] try_range [of j "n + counters a" b] by fastforce
next
  case (COZ_TRY b hs)
  then show ?case by fastforce
qed auto

lemma helpers_fuel2 [simp]:
  "run_handler P x h c \<noteq> OutOfFuel"
  by (auto simp: run_handler_def split: option.splits plain_result.splits)

lemma catch_clauses_fuel [simp]: "catch_clauses P hs x c \<noteq> OutOfFuel"
  by (induction hs) (auto split: if_splits)

lemma coz_catch_fuel [simp]: "coz_catch P prev hs ex c \<noteq> OutOfFuel"
  by (simp add: coz_catch_def split: option.splits)

lemma loop_free_no_fuel:
  "loop_free s \<Longrightarrow> exec P k n ceh s md c \<noteq> OutOfFuel"
proof (induction s arbitrary: n ceh md c)
  case (Exec f)
  then show ?case by (cases md) simp_all
next
  case (Seq a b)
  then show ?case by (cases "exec P k n ceh a md c") simp_all
next
  case (Cond cnd a b)
  show ?case
  proof (cases md)
    case Run
    with Cond show ?thesis by (cases "m_state c") simp_all
  next
    case (Seek l ex)
    with Cond show ?thesis by (cases "exec P k n ceh a (Seek l ex) c") simp_all
  qed
next
  case (COZ_YIELD sa e)
  then show ?case by (cases md) simp_all
next
  case (COZ_YIELD_LITE e)
  then show ?case by (cases md) simp_all
next
  case (COZ_AWAIT_APPLY sa f e)
  then show ?case by (cases md) simp_all
next
  case (COZ_RETURN t)
  then show ?case by (cases md; cases "m_state c") simp_all
next
  case (COZ_TRY b hs)
  then show ?case by (cases md) simp_all
qed simp_all

lemma run_m_eh:
  "loop_free s \<Longrightarrow> reached (exec P k n ceh s Run c) = Some c' \<Longrightarrow>
   m_eh c' = m_eh c \<or> m_eh c' \<in> of_nat ` set (try_ordinals n s)"
proof (induction s arbitrary: n ceh c c')
  case (Exec f)
  then show ?case by (auto dest: helpers_m_eh)
next
  case (Seq a b)
  show ?case
  proof (cases "exec P k n ceh a Run c")
    case (Continue c1)
    with Seq.prems have "reached (exec P k (n + counters a) ceh b Run c1) = Some c'" by simp
    from Seq.IH(2) [OF _ this] Seq.prems(1)
    have 2: "m_eh c' = m_eh c1 \<or> m_eh c' \<in> of_nat ` set (try_ordinals (n + counters a) b)" by simp
    from Continue have "reached (exec P k n ceh a Run c) = Some c1" by simp
    from Seq.IH(1) [OF _ this] Seq.prems(1)
    have "m_eh c1 = m_eh c \<or> m_eh c1 \<in> of_nat ` set (try_ordinals n a)" by simp
    with 2 show ?thesis by (auto simp: image_Un)
  next
    case NoCase
    with run_never_nocase [of Run P k n ceh a c] show ?thesis by simp
  next
    case (GotoSuspend c1)
    with Seq.prems have "reached (exec P k n ceh a Run c) = Some c'" by simp
    from Seq.IH(1) [OF _ this] Seq.prems(1) show ?thesis by (auto simp: image_Un)
  next
    case (GotoFinalize c1)
    with Seq.prems have "reached (exec P k n ceh a Run c) = Some c'" by simp
    from Seq.IH(1) [OF _ this] Seq.prems(1) show ?thesis by (auto simp: image_Un)
  next
    case (Thrown x c1)
    with Seq.prems have "reached (exec P k n ceh a Run c) = Some c'" by simp
    from Seq.IH(1) [OF _ this] Seq.prems(1) show ?thesis by (auto simp: image_Un)
  qed (use Seq.prems in simp_all)
next
  case (Cond cnd a b)
  from Cond.prems(2) obtain s where s: "m_state c = Some s" by (cases "m_state c") simp_all
  show ?case
  proof (cases "cnd s")
    case True
    with Cond.prems s have "reached (exec P k n ceh a Run c) = Some c'" by simp
    from Cond.IH(1) [OF _ this] Cond.prems(1) show ?thesis by (auto simp: image_Un)
  next
    case False
    with Cond.prems s have "reached (exec P k (n + counters a) ceh b Run c) = Some c'" by simp
    from Cond.IH(2) [OF _ this] Cond.prems(1) show ?thesis by (auto simp: image_Un)
  qed
next
  case (COZ_YIELD sa e)
  then show ?case by (auto dest: helpers_m_eh)
next
  case (COZ_YIELD_LITE e)
  then show ?case by (auto dest: helpers_m_eh)
next
  case (COZ_AWAIT_APPLY sa f e)
  then show ?case by (auto dest: helpers_m_eh)
next
  case (COZ_RETURN t)
  then show ?case by (cases "m_state c") (auto dest: helpers_m_eh)
next
  case (COZ_TRY b hs)
  from COZ_TRY.prems
  have "reached (exec P k (n + 1) (of_nat n) b Run (c\<lparr>m_eh := of_nat n\<rparr>)) = Some c'" by simp
  from COZ_TRY.IH [OF _ this] COZ_TRY.prems(1) show ?case by auto
qed simp_all

lemma seek_m_eh:
  "loop_free s \<Longrightarrow> j \<in> set (try_ordinals n s) \<Longrightarrow> n + counters s \<le> 2 ^ 32 \<Longrightarrow>
   reached (exec P k n ceh s (Seek (of_nat j) ex) c) = Some c' \<Longrightarrow>
   m_eh c' = ceh \<or> (\<exists>j' \<in> set (try_ordinals n s). m_eh c' = of_nat j'
                       \<and> retries_left n s j' < retries_left n s j)"
proof (induction s arbitrary: n ceh c c')
  case (Seq a b)
  let ?nb = "n + counters a"
  from Seq.prems(1) have lf: "loop_free a" "loop_free b" by simp_all
  from Seq.prems(3) have fa: "n + counters a \<le> 2 ^ 32" and fb: "?nb + counters b \<le> 2 ^ 32"
    by simp_all
  have lift_a: "\<exists>j' \<in> set (try_ordinals n (Seq a b)). m_eh c' = of_nat j'
                  \<and> retries_left n (Seq a b) j' < retries_left n (Seq a b) j"
    if "j1 \<in> set (try_ordinals n a)" "m_eh c' = of_nat j1" "retries_left n a j1 < retries_left n a j"
       "j \<in> set (try_ordinals n a)" for j1
    using that try_range [of j1 n a] try_range [of j n a] by (intro bexI [of _ j1]) auto
  have lift_b: "\<exists>j' \<in> set (try_ordinals n (Seq a b)). m_eh c' = of_nat j'
                  \<and> retries_left n (Seq a b) j' < retries_left n (Seq a b) j"
    if "j2 \<in> set (try_ordinals ?nb b)" "m_eh c' = of_nat j2"
       "j \<in> set (try_ordinals n a)" for j2
    using that try_range [of j2 ?nb b] try_range [of j n a] retries_le [of j2 ?nb b]
      retries_pos [of j n a]
    by (intro bexI [of _ j2]) auto
  from Seq.prems(2) consider (a) "j \<in> set (try_ordinals n a)" | (b) "j \<in> set (try_ordinals ?nb b)"
    by auto
  then show ?case
  proof cases
    case a
    have found: "exec P k n ceh a (Seek (of_nat j) ex) c \<noteq> NoCase"
      by (rule try_label_found [OF a])
    note IHa = Seq.IH(1) [OF lf(1) a fa]
    show ?thesis
    proof (cases "exec P k n ceh a (Seek (of_nat j) ex) c")
      case (Continue c1)
      then have "reached (exec P k n ceh a (Seek (of_nat j) ex) c) = Some c1" by simp
      from IHa [OF this]
      have 1: "m_eh c1 = ceh \<or> (\<exists>j' \<in> set (try_ordinals n a). m_eh c1 = of_nat j'
                       \<and> retries_left n a j' < retries_left n a j)" .
      from Continue Seq.prems(4) have "reached (exec P k ?nb ceh b Run c1) = Some c'" by simp
      from run_m_eh [OF lf(2) this]
      have "m_eh c' = m_eh c1 \<or> m_eh c' \<in> of_nat ` set (try_ordinals ?nb b)" .
      then show ?thesis
      proof
        assume e: "m_eh c' = m_eh c1"
        from 1 show ?thesis
        proof
          assume "m_eh c1 = ceh"
          with e show ?thesis by simp
        next
          assume "\<exists>j' \<in> set (try_ordinals n a). m_eh c1 = of_nat j'
                       \<and> retries_left n a j' < retries_left n a j"
          then obtain j1 where "j1 \<in> set (try_ordinals n a)" "m_eh c1 = of_nat j1"
            "retries_left n a j1 < retries_left n a j" by blast
          with e lift_a [of j1] a show ?thesis by simp
        qed
      next
        assume "m_eh c' \<in> of_nat ` set (try_ordinals ?nb b)"
        then obtain j2 where "j2 \<in> set (try_ordinals ?nb b)" "m_eh c' = of_nat j2" by blast
        with lift_b [of j2] a show ?thesis by simp
      qed
    next
      case NoCase
      with found show ?thesis by simp
    next
      case (GotoSuspend c1)
      with Seq.prems(4) have "reached (exec P k n ceh a (Seek (of_nat j) ex) c) = Some c'" by simp
      from IHa [OF this] lift_a a show ?thesis by blast
    next
      case (GotoFinalize c1)
      with Seq.prems(4) have "reached (exec P k n ceh a (Seek (of_nat j) ex) c) = Some c'" by simp
      from IHa [OF this] lift_a a show ?thesis by blast
    next
      case (Thrown x c1)
      with Seq.prems(4) have "reached (exec P k n ceh a (Seek (of_nat j) ex) c) = Some c'" by simp
      from IHa [OF this] lift_a a show ?thesis by blast
    qed (use Seq.prems(4) in simp_all)
  next
    case b
    from try_range [OF b] fb have r: "?nb \<le> j" "j < 2 ^ 32" by simp_all
    have "exec P k n ceh a (Seek (of_nat j) ex) c = NoCase"
      by (rule seek_other_range [OF r(1) _ r(2)]) simp
    with Seq.prems(4) have "reached (exec P k ?nb ceh b (Seek (of_nat j) ex) c) = Some c'" by simp
    from Seq.IH(2) [OF lf(2) b fb this]
    have "m_eh c' = ceh \<or> (\<exists>j' \<in> set (try_ordinals ?nb b). m_eh c' = of_nat j'
                       \<and> retries_left ?nb b j' < retries_left ?nb b j)" .
    then show ?thesis
    proof
      assume "m_eh c' = ceh"
      then show ?thesis by simp
    next
      assume "\<exists>j' \<in> set (try_ordinals ?nb b). m_eh c' = of_nat j'
                       \<and> retries_left ?nb b j' < retries_left ?nb b j"
      then obtain j2 where j2: "j2 \<in> set (try_ordinals ?nb b)" "m_eh c' = of_nat j2"
        "retries_left ?nb b j2 < retries_left ?nb b j" by blast
      with try_range [OF j2(1)] r(1)
      have "j2 \<in> set (try_ordinals n (Seq a b)) \<and> m_eh c' = of_nat j2
            \<and> retries_left n (Seq a b) j2 < retries_left n (Seq a b) j" by simp
      then show ?thesis by blast
    qed
  qed
next
  case (Cond cnd a b)
  let ?nb = "n + counters a"
  from Cond.prems(1) have lf: "loop_free a" "loop_free b" by simp_all
  from Cond.prems(3) have fa: "n + counters a \<le> 2 ^ 32" and fb: "?nb + counters b \<le> 2 ^ 32"
    by simp_all
  from Cond.prems(2) consider (a) "j \<in> set (try_ordinals n a)" | (b) "j \<in> set (try_ordinals ?nb b)"
    by auto
  then show ?case
  proof cases
    case a
    have found: "exec P k n ceh a (Seek (of_nat j) ex) c \<noteq> NoCase"
      by (rule try_label_found [OF a])
    with Cond.prems(4) have "reached (exec P k n ceh a (Seek (of_nat j) ex) c) = Some c'"
      by (cases "exec P k n ceh a (Seek (of_nat j) ex) c") simp_all
    from Cond.IH(1) [OF lf(1) a fa this]
    have "m_eh c' = ceh \<or> (\<exists>j' \<in> set (try_ordinals n a). m_eh c' = of_nat j'
                       \<and> retries_left n a j' < retries_left n a j)" .
    then show ?thesis
    proof
      assume "m_eh c' = ceh"
      then show ?thesis by simp
    next
      assume "\<exists>j' \<in> set (try_ordinals n a). m_eh c' = of_nat j'
                       \<and> retries_left n a j' < retries_left n a j"
      then obtain j1 where j1: "j1 \<in> set (try_ordinals n a)" "m_eh c' = of_nat j1"
        "retries_left n a j1 < retries_left n a j" by blast
      with try_range [OF j1(1)] try_range [OF a]
      have "j1 \<in> set (try_ordinals n (Cond cnd a b)) \<and> m_eh c' = of_nat j1
            \<and> retries_left n (Cond cnd a b) j1 < retries_left n (Cond cnd a b) j" by simp
      then show ?thesis by blast
    qed
  next
    case b
    from try_range [OF b] fb have r: "?nb \<le> j" "j < 2 ^ 32" by simp_all
    have "exec P k n ceh a (Seek (of_nat j) ex) c = NoCase"
      by (rule seek_other_range [OF r(1) _ r(2)]) simp
    with Cond.prems(4) have "reached (exec P k ?nb ceh b (Seek (of_nat j) ex) c) = Some c'" by simp
    from Cond.IH(2) [OF lf(2) b fb this]
    have "m_eh c' = ceh \<or> (\<exists>j' \<in> set (try_ordinals ?nb b). m_eh c' = of_nat j'
                       \<and> retries_left ?nb b j' < retries_left ?nb b j)" .
    then show ?thesis
    proof
      assume "m_eh c' = ceh"
      then show ?thesis by simp
    next
      assume "\<exists>j' \<in> set (try_ordinals ?nb b). m_eh c' = of_nat j'
                       \<and> retries_left ?nb b j' < retries_left ?nb b j"
      then obtain j2 where j2: "j2 \<in> set (try_ordinals ?nb b)" "m_eh c' = of_nat j2"
        "retries_left ?nb b j2 < retries_left ?nb b j" by blast
      with try_range [OF j2(1)] r(1)
      have "j2 \<in> set (try_ordinals n (Cond cnd a b)) \<and> m_eh c' = of_nat j2
            \<and> retries_left n (Cond cnd a b) j2 < retries_left n (Cond cnd a b) j" by simp
      then show ?thesis by blast
    qed
  qed
next
  case (COZ_TRY b hs)
  from COZ_TRY.prems(1) have lf: "loop_free b" by simp
  from COZ_TRY.prems(3) have fb: "n + 1 + counters b \<le> 2 ^ 32" by simp
  show ?case
  proof (cases "j = n")
    case True
    with COZ_TRY.prems(4) have "reached (coz_catch P ceh hs ex c) = Some c'" by simp
    from coz_catch_m_eh [OF this] show ?thesis by simp
  next
    case False
    with COZ_TRY.prems(2) have jb: "j \<in> set (try_ordinals (n + 1) b)" by simp
    from try_range [OF jb] fb have "j < 2 ^ 32" "n < 2 ^ 32" by simp_all
    with False have "(of_nat j :: pc) \<noteq> of_nat n" by (simp add: of_nat_pc_inj)
    with COZ_TRY.prems(4)
    have "reached (exec P k (n + 1) (of_nat n) b (Seek (of_nat j) ex) c) = Some c'" by simp
    from COZ_TRY.IH [OF lf jb fb this]
    have "m_eh c' = of_nat n \<or> (\<exists>j' \<in> set (try_ordinals (n + 1) b). m_eh c' = of_nat j'
                       \<and> retries_left (n + 1) b j' < retries_left (n + 1) b j)" .
    then show ?thesis
    proof
      assume "m_eh c' = of_nat n"
      with False retries_pos [OF jb]
      have "n \<in> set (try_ordinals n (COZ_TRY b hs)) \<and> m_eh c' = of_nat n
            \<and> retries_left n (COZ_TRY b hs) n < retries_left n (COZ_TRY b hs) j" by simp
      then show ?thesis by blast
    next
      assume "\<exists>j' \<in> set (try_ordinals (n + 1) b). m_eh c' = of_nat j'
                       \<and> retries_left (n + 1) b j' < retries_left (n + 1) b j"
      then obtain j2 where j2: "j2 \<in> set (try_ordinals (n + 1) b)" "m_eh c' = of_nat j2"
        "retries_left (n + 1) b j2 < retries_left (n + 1) b j" by blast
      with try_range [OF j2(1)] False
      have "j2 \<in> set (try_ordinals n (COZ_TRY b hs)) \<and> m_eh c' = of_nat j2
            \<and> retries_left n (COZ_TRY b hs) j2 < retries_left n (COZ_TRY b hs) j" by simp
      then show ?thesis by blast
    qed
  qed
qed simp_all

lemma engine_pass_retry:
  assumes "engine_pass P k body ex c = Inr (x, c2)"
  shows "\<exists>c1. reached (dispatch P k body ex c) = Some c1 \<and> m_next c2 = m_eh c1
              \<and> m_eh c2 = m_eh c1 \<and> m_next c2 \<noteq> SENTINEL"
proof (cases "dispatch P k body ex c")
  case (Continue c1)
  with assms show ?thesis
    by (auto simp: engine_pass_def COZ_END_def implicit_return_def call_hook_def catch_all_def
        Let_def split: option.splits prod.splits if_splits)
next
  case (Thrown y c1)
  with assms show ?thesis
    by (auto simp: engine_pass_def catch_all_def Let_def split: if_splits)
qed (use assms in \<open>simp_all add: engine_pass_def\<close>)

lemma engine_pass_diverged:
  assumes "engine_pass P k body ex c = Inl Diverged"
  shows "dispatch P k body ex c = OutOfFuel"
proof (cases "dispatch P k body ex c")
  case (Continue c1)
  with assms show ?thesis
    by (auto simp: engine_pass_def COZ_END_def implicit_return_def call_hook_def catch_all_def
        Let_def split: option.splits prod.splits if_splits)
next
  case (Thrown y c1)
  with assms show ?thesis
    by (auto simp: engine_pass_def catch_all_def Let_def split: if_splits)
qed (use assms in \<open>simp_all add: engine_pass_def\<close>)

lemma try_label_nonzero:
  assumes "j \<in> set (try_ordinals 1 body)" "labels_fit body"
  shows "(of_nat j :: pc) \<noteq> 0"
proof -
  from try_range [OF assms(1)] assms(2) have "j < 2 ^ 32" "(0 :: nat) < 2 ^ 32" "j \<noteq> 0"
    by (simp_all add: labels_fit_def)
  then have "(of_nat j :: pc) \<noteq> of_nat 0" by (simp only: of_nat_pc_inj not_False_eq_True)
  then show ?thesis by simp
qed

lemma retry_terminates:
  assumes lf: "loop_free body" and fit: "labels_fit body"
  shows "j \<in> set (try_ordinals 1 body) \<Longrightarrow> m_next c = of_nat j \<Longrightarrow>
         retries_left 1 body j \<le> Suc k \<Longrightarrow> coz_operator P k body ex c \<noteq> Diverged"
proof (induction k arbitrary: j c ex)
  case 0
  from fit have f: "1 + counters body \<le> 2 ^ 32" by (simp add: labels_fit_def)
  from try_label_nonzero [OF "0.prems"(1) fit] "0.prems"(2)
  have d: "dispatch P 0 body ex c = exec P 0 1 SENTINEL body (Seek (of_nat j) ex) c"
    by (simp add: dispatch_def)
  show ?case
  proof (cases "engine_pass P 0 body ex c")
    case (Inl r)
    from d loop_free_no_fuel [OF lf, of P 0 1 SENTINEL "Seek (of_nat j) ex" c]
    have "dispatch P 0 body ex c \<noteq> OutOfFuel" by simp
    with engine_pass_diverged [of P 0 body ex c] Inl show ?thesis by auto
  next
    case (Inr xc)
    obtain x c2 where xc: "xc = (x, c2)" by (cases xc)
    from Inr xc have "engine_pass P 0 body ex c = Inr (x, c2)" by simp
    from engine_pass_retry [OF this] obtain c1 where
      c1: "reached (dispatch P 0 body ex c) = Some c1" "m_next c2 = m_eh c1" "m_next c2 \<noteq> SENTINEL"
      by blast
    from c1(1) d have "reached (exec P 0 1 SENTINEL body (Seek (of_nat j) ex) c) = Some c1" by simp
    from seek_m_eh [OF lf "0.prems"(1) f this] c1(2,3)
    obtain j' where "j' \<in> set (try_ordinals 1 body)" "retries_left 1 body j' < retries_left 1 body j"
      by auto
    with retries_pos [of j' 1 body] "0.prems"(3) show ?thesis by simp
  qed
next
  case (Suc k)
  from fit have f: "1 + counters body \<le> 2 ^ 32" by (simp add: labels_fit_def)
  from try_label_nonzero [OF Suc.prems(1) fit] Suc.prems(2)
  have d: "dispatch P (Suc k) body ex c = exec P (Suc k) 1 SENTINEL body (Seek (of_nat j) ex) c"
    by (simp add: dispatch_def)
  show ?case
  proof (cases "engine_pass P (Suc k) body ex c")
    case (Inl r)
    from d loop_free_no_fuel [OF lf, of P "Suc k" 1 SENTINEL "Seek (of_nat j) ex" c]
    have "dispatch P (Suc k) body ex c \<noteq> OutOfFuel" by simp
    with engine_pass_diverged [of P "Suc k" body ex c] Inl show ?thesis by auto
  next
    case (Inr xc)
    obtain x c2 where xc: "xc = (x, c2)" by (cases xc)
    from Inr xc have "engine_pass P (Suc k) body ex c = Inr (x, c2)" by simp
    from engine_pass_retry [OF this] obtain c1 where
      c1: "reached (dispatch P (Suc k) body ex c) = Some c1" "m_next c2 = m_eh c1"
        "m_next c2 \<noteq> SENTINEL"
      by blast
    from c1(1) d have "reached (exec P (Suc k) 1 SENTINEL body (Seek (of_nat j) ex) c) = Some c1"
      by simp
    from seek_m_eh [OF lf Suc.prems(1) f this] c1(2,3)
    obtain j' where j': "j' \<in> set (try_ordinals 1 body)" "m_eh c1 = of_nat j'"
      "retries_left 1 body j' < retries_left 1 body j"
      by auto
    with Suc.prems(3) c1(2) have "m_next c2 = of_nat j'" "retries_left 1 body j' \<le> Suc k" by simp_all
    from Suc.IH [OF j'(1) this] Inr xc show ?thesis by simp
  qed
qed

lemma start_terminates:
  assumes lf: "loop_free body" and fit: "labels_fit body"
    and c: "m_next c = 0" "m_eh c = SENTINEL"
    and k: "length (try_ordinals 1 body) \<le> k"
  shows "coz_operator P k body ex c \<noteq> Diverged"
proof -
  from c(1) have d: "dispatch P k body ex c = exec P k 1 SENTINEL body Run c"
    by (simp add: dispatch_def)
  show ?thesis
  proof (cases "engine_pass P k body ex c")
    case (Inl r)
    from d loop_free_no_fuel [OF lf, of P k 1 SENTINEL Run c]
    have "dispatch P k body ex c \<noteq> OutOfFuel" by simp
    with engine_pass_diverged [of P k body ex c] Inl have "r \<noteq> Diverged" by auto
    with Inl show ?thesis by (simp add: coz_operator_Inl)
  next
    case (Inr xc)
    obtain x c2 where xc: "xc = (x, c2)" by (cases xc)
    from Inr xc have "engine_pass P k body ex c = Inr (x, c2)" by simp
    from engine_pass_retry [OF this] obtain c1 where
      c1: "reached (dispatch P k body ex c) = Some c1" "m_next c2 = m_eh c1" "m_next c2 \<noteq> SENTINEL"
      by blast
    from c1(1) d have "reached (exec P k 1 SENTINEL body Run c) = Some c1" by simp
    from run_m_eh [OF lf this] c(2) c1(2,3)
    obtain j' where j': "j' \<in> set (try_ordinals 1 body)" "m_next c2 = of_nat j'" by auto
    from j'(1) k obtain k' where k': "k = Suc k'" by (cases k) auto
    from retries_le [OF j'(1)] k k' have "retries_left 1 body j' \<le> Suc k'" by simp
    from retry_terminates [OF lf fit j'(1) j'(2) this, of P "Some x"] Inr xc k'
    show ?thesis by simp
  qed
qed

section \<open>What a call leaves behind\<close>

lemma unhandled_completed: "completed (unhandled P x (c\<lparr>m_next := SENTINEL\<rparr>))"
  by (simp add: unhandled_eq completed_def done_coro_def split: prod.splits option.splits)

lemma catch_all_classified:
  assumes "m_eh c \<in> insert SENTINEL L"
  shows "case catch_all P x c of
           Inl r \<Rightarrow> completed r
         | Inr (x', c') \<Rightarrow> m_eh c' \<in> insert SENTINEL L \<and> m_next c' \<in> L \<and> m_next c' \<noteq> SENTINEL
                            \<and> m_state c' = m_state c"
  using assms by (auto simp: catch_all_def Let_def unhandled_completed)

lemma engine_pass_classified:
  assumes ns: "suspension_points 1 body = []"
    and eh: "m_eh c \<in> insert SENTINEL (of_nat ` set (try_ordinals 1 body))"
    and nx: "m_next c = 0 \<or> m_next c \<in> of_nat ` set (try_ordinals 1 body)"
    and st: "m_state c \<noteq> None"
    and ca: "m_next c \<noteq> 0 \<longrightarrow> ex \<noteq> None"
  shows "case engine_pass P k body ex c of
           Inl r \<Rightarrow> completed r \<or> r = Diverged \<or> (\<exists>ft. r = Aborted ft \<and> lacks_return_hook P ft)
         | Inr (x', c') \<Rightarrow> m_eh c' \<in> insert SENTINEL (of_nat ` set (try_ordinals 1 body))
                            \<and> m_next c' \<in> of_nat ` set (try_ordinals 1 body)
                            \<and> m_next c' \<noteq> SENTINEL \<and> m_state c' \<noteq> None"
proof -
  let ?L = "of_nat ` set (try_ordinals 1 body) :: pc set"
  let ?d = "dispatch P k body ex c"
  obtain md where md: "?d = exec P k 1 SENTINEL body md c" "carries md"
    "md = Run \<or> md = Seek (m_next c) ex"
    using ca by (cases "m_next c = 0") (auto simp: dispatch_def)
  have nn: "?d \<noteq> NoCase"
    using nx run_never_nocase [of Run P k 1 SENTINEL body c] try_label_found [of _ 1 body P k SENTINEL ex c]
    by (auto simp: dispatch_def)
  have nsu: "?d \<noteq> GotoSuspend c'" for c'
    using no_points_no_suspend [OF ns, of P k SENTINEL md c c'] md(1) by simp
  have inv: "m_eh c' \<in> insert SENTINEL ?L \<and> m_state c' \<noteq> None" if "reached ?d = Some c'" for c'
  proof -
    from that md(1) have r: "reached (exec P k 1 SENTINEL body md c) = Some c'" by simp
    from m_eh_stays [OF r eh] m_state_stays [OF r st] show ?thesis by blast
  qed
  have fin: "m_next c' = SENTINEL" if "?d = GotoFinalize c'" for c'
    using that finalize_has_sentinel [OF _ ns] md(1) by simp
  have fat: "lacks_return_hook P ft" if "?d = Fatal ft" for ft
    using that fatal_lacks_hook [OF _ ns st md(2)] md(1) by simp
  show ?thesis
  proof (cases ?d)
    case (Continue c')
    with inv have i: "m_eh c' \<in> insert SENTINEL ?L" "m_state c' \<noteq> None" by simp_all
    show ?thesis
    proof (cases "return_void P")
      case None
      with Continue show ?thesis
        by (simp add: engine_pass_def COZ_END_def implicit_return_def lacks_return_hook_def)
    next
      case (Some h)
      obtain xo p' where h: "h (promise c') = (xo, p')" by (cases "h (promise c')")
      show ?thesis
      proof (cases xo)
        case None
        with Continue Some h show ?thesis
          by (simp add: engine_pass_def COZ_END_def implicit_return_def call_hook_def
              completed_def done_coro_def)
      next
        case (Some x)
        let ?c2 = "emit [EvReturnVoid] (c'\<lparr>m_next := SENTINEL, promise := p'\<rparr>)"
        from i have "m_eh ?c2 \<in> insert SENTINEL ?L" by simp
        from catch_all_classified [OF this, of P x] i(2) Continue \<open>return_void P = Some h\<close> h Some
        show ?thesis
          by (auto simp: engine_pass_def COZ_END_def implicit_return_def call_hook_def
              split: sum.splits)
      qed
    qed
  next
    case NoCase
    with nn show ?thesis by simp
  next
    case (GotoSuspend c')
    with nsu [of c'] show ?thesis by simp
  next
    case (GotoFinalize c')
    with fin show ?thesis
      by (simp add: engine_pass_def completed_def done_coro_def)
  next
    case (Thrown x c')
    with inv have i: "m_eh c' \<in> insert SENTINEL ?L" "m_state c' \<noteq> None" by simp_all
    from catch_all_classified [OF i(1), of P x] i(2) Thrown show ?thesis
      by (auto simp: engine_pass_def split: sum.splits)
  next
    case (Fatal ft)
    with fat show ?thesis by (simp add: engine_pass_def)
  next
    case OutOfFuel
    then show ?thesis by (simp add: engine_pass_def)
  qed
qed

lemma coz_operator_classified:
  assumes ns: "suspension_points 1 body = []"
  shows "m_eh c \<in> insert SENTINEL (of_nat ` set (try_ordinals 1 body)) \<Longrightarrow>
         m_next c = 0 \<or> m_next c \<in> of_nat ` set (try_ordinals 1 body) \<Longrightarrow>
         m_state c \<noteq> None \<Longrightarrow> m_next c \<noteq> 0 \<longrightarrow> ex \<noteq> None \<Longrightarrow>
         completed (coz_operator P k body ex c) \<or> coz_operator P k body ex c = Diverged
         \<or> (\<exists>ft. coz_operator P k body ex c = Aborted ft \<and> lacks_return_hook P ft)"
proof (induction k arbitrary: ex c)
  case 0
  from engine_pass_classified [OF ns 0, of P 0] show ?case
    by (auto split: sum.splits)
next
  case (Suc k)
  show ?case
  proof (cases "engine_pass P (Suc k) body ex c")
    case (Inl r)
    with engine_pass_classified [OF ns Suc.prems, of P "Suc k"] show ?thesis by simp
  next
    case (Inr xc)
    obtain x c2 where xc: "xc = (x, c2)" by (cases xc)
    with Inr engine_pass_classified [OF ns Suc.prems, of P "Suc k"]
    have "m_eh c2 \<in> insert SENTINEL (of_nat ` set (try_ordinals 1 body))"
      "m_next c2 = 0 \<or> m_next c2 \<in> of_nat ` set (try_ordinals 1 body)"
      "m_state c2 \<noteq> None" "m_next c2 \<noteq> 0 \<longrightarrow> Some x \<noteq> None" by simp_all
    from Suc.IH [OF this] Inr xc show ?thesis by simp
  qed
qed



lemma helpers_no_nocase2 [simp]:
  "yield_resume c \<noteq> NoCase"
  by (auto simp: yield_resume_def split: option.splits occupant.splits)











lemma scrub_m_next [simp]: "m_next (scrub kind c) = m_next c"
  by (simp add: scrub_def split: susp_kind.splits)

section \<open>More fuel gives the same result\<close>

text \<open>
  The fuel only cuts a run short: a run that ends within its fuel ends the same way
  with more.
\<close>

lemma exec_fuel_mono:
  "exec P k n ceh s md c \<noteq> OutOfFuel \<Longrightarrow> exec P (Suc k) n ceh s md c = exec P k n ceh s md c"
proof (induction P k n ceh s md c rule: exec.induct)
  case (3 P k n ceh a b md c)
  show ?case
  proof (cases "exec P k n ceh a md c")
    case (Continue c1)
    with "3.prems" have "exec P k (n + counters a) ceh b Run c1 \<noteq> OutOfFuel" by simp
    from "3.IH"(2) [OF Continue this] "3.IH"(1) Continue show ?thesis by simp
  next
    case NoCase
    with "3.prems" have "exec P k (n + counters a) ceh b md c \<noteq> OutOfFuel" by simp
    from "3.IH"(3) [OF NoCase this] "3.IH"(1) NoCase show ?thesis by simp
  next
    case OutOfFuel
    with "3.prems" show ?thesis by simp
  qed (use "3.IH"(1) in simp_all)
next
  case (4 P k n ceh cnd a b c)
  show ?case
  proof (cases "m_state c")
    case None
    then show ?thesis by simp
  next
    case (Some s)
    show ?thesis
    proof (cases "cnd s")
      case True
      with Some "4.prems" have "exec P k n ceh a Run c \<noteq> OutOfFuel" by simp
      from "4.IH"(1) [OF Some True this] Some True show ?thesis by simp
    next
      case False
      with Some "4.prems" have "exec P k (n + counters a) ceh b Run c \<noteq> OutOfFuel" by simp
      from "4.IH"(2) [OF Some False this] Some False show ?thesis by simp
    qed
  qed
next
  case (5 P k n ceh cnd a b l ex c)
  show ?case
  proof (cases "exec P k n ceh a (Seek l ex) c")
    case NoCase
    with "5.prems" have "exec P k (n + counters a) ceh b (Seek l ex) c \<noteq> OutOfFuel" by simp
    from "5.IH"(2) [OF NoCase this] "5.IH"(1) NoCase show ?thesis by simp
  next
    case OutOfFuel
    with "5.prems" show ?thesis by simp
  qed (use "5.IH"(1) in simp_all)
next
  case (6 P n ceh cnd stp b c)
  then show ?case by (cases "m_state c") (simp_all split: if_splits)
next
  case (7 P k n ceh cnd stp b c)
  show ?case
  proof (cases "m_state c")
    case None
    then show ?thesis by simp
  next
    case (Some s)
    show ?thesis
    proof (cases "cnd s")
      case False
      with Some show ?thesis by simp
    next
      case True
      show ?thesis
      proof (cases "exec P (Suc k) n ceh b Run c")
        case (Continue c1)
        with Some True "7.prems"
        have "exec P k n ceh (For cnd stp b) Run (for_step stp c1) \<noteq> OutOfFuel" by simp
        from "7.IH"(2) [OF Some True Continue this] "7.IH"(1) [OF Some True] Continue Some True
        show ?thesis by simp
      next
        case OutOfFuel
        with Some True "7.prems" show ?thesis by simp
      qed (use "7.IH"(1) [OF Some True] Some True in simp_all)
    qed
  qed
next
  case (8 P n ceh cnd stp b l ex c)
  show ?case
  proof (cases "exec P 0 n ceh b (Seek l ex) c")
    case (Continue c1)
    with "8.prems" "8.IH" show ?thesis by (cases "m_state (for_step stp c1)") (simp_all split: if_splits)
  next
    case OutOfFuel
    with "8.prems" show ?thesis by simp
  qed (use "8.IH" in simp_all)
next
  case (9 P k n ceh cnd stp b l ex c)
  show ?case
  proof (cases "exec P (Suc k) n ceh b (Seek l ex) c")
    case (Continue c1)
    with "9.prems"
    have "exec P k n ceh (For cnd stp b) Run (for_step stp c1) \<noteq> OutOfFuel" by simp
    from "9.IH"(2) [OF Continue this] "9.IH"(1) Continue show ?thesis by simp
  next
    case OutOfFuel
    with "9.prems" show ?thesis by simp
  qed (use "9.IH"(1) in simp_all)
next
  case (18 P k n ceh b hs c)
  then show ?case by simp
next
  case (19 P k n ceh b hs l ex c)
  then show ?case by (cases "l = of_nat n") simp_all
qed simp_all

lemma engine_pass_fuel_mono:
  assumes "engine_pass P k body ex c \<noteq> Inl Diverged"
  shows "engine_pass P (Suc k) body ex c = engine_pass P k body ex c"
proof -
  from assms have "dispatch P k body ex c \<noteq> OutOfFuel" by (auto simp: engine_pass_def)
  then have "dispatch P (Suc k) body ex c = dispatch P k body ex c"
    by (auto simp: dispatch_def exec_fuel_mono split: if_splits)
  then show ?thesis by (simp add: engine_pass_def)
qed

lemma coz_operator_fuel_mono:
  "coz_operator P k body ex c \<noteq> Diverged \<Longrightarrow>
   coz_operator P (Suc k) body ex c = coz_operator P k body ex c"
proof (induction k arbitrary: ex c)
  case 0
  then obtain r where r: "engine_pass P 0 body ex c = Inl r" "r \<noteq> Diverged"
    by (cases "engine_pass P 0 body ex c") auto
  then have "engine_pass P (Suc 0) body ex c = Inl r" by (simp add: engine_pass_fuel_mono)
  with r show ?case by simp
next
  case (Suc k)
  show ?case
  proof (cases "engine_pass P (Suc k) body ex c")
    case (Inl r)
    with Suc.prems have "r \<noteq> Diverged" by simp
    with Inl have "engine_pass P (Suc (Suc k)) body ex c = Inl r" by (simp add: engine_pass_fuel_mono)
    with Inl show ?thesis by simp
  next
    case (Inr xc)
    obtain x c2 where xc: "xc = (x, c2)" by (cases xc)
    with Inr Suc.prems have "coz_operator P k body (Some x) c2 \<noteq> Diverged" by simp
    from Suc.IH [OF this] have "coz_operator P (Suc k) body (Some x) c2 = coz_operator P k body (Some x) c2" .
    moreover from Inr have "engine_pass P (Suc (Suc k)) body ex c = Inr xc"
      by (simp add: engine_pass_fuel_mono)
    ultimately show ?thesis using Inr xc by simp
  qed
qed

lemma coz_operator_fuel_add:
  "coz_operator P k body ex c \<noteq> Diverged \<Longrightarrow>
   coz_operator P (k + j) body ex c = coz_operator P k body ex c"
proof (induction j)
  case 0
  then show ?case by simp
next
  case (Suc j)
  then have "coz_operator P (k + j) body ex c \<noteq> Diverged" by simp
  from coz_operator_fuel_mono [OF this] Suc show ?case by simp
qed

section \<open>\<^verbatim>\<open>done()\<close> and the resume program counter\<close>




section \<open>Bodies without suspension points\<close>

text \<open>
  C7.  For a body without suspension points the solver ends with \<^verbatim>\<open>size_align{}\<close>, for
  which \<^verbatim>\<open>body\<close> is the specialisation without a scratch buffer.  \<^verbatim>\<open>start\<close> on a new
  coroutine runs the body from its first statement: when the body reaches its end the
  call returns after \<^verbatim>\<open>return_void\<close> and the finalizer, after \<^verbatim>\<open>COZ_RETURN\<close> it returns
  after the finalizer, and an exception goes to \<^verbatim>\<open>unhandled_exception\<close> or to the
  handler in \<^verbatim>\<open>m_eh\<close>.  The call never comes back from a suspension: it comes back with
  \<^verbatim>\<open>done()\<close> true, unless the promise lacks the return hook the body needs or the fuel
  runs out; in a body without loops, with one unit of fuel for each \<^verbatim>\<open>COZ_TRY\<close>, the
  fuel does not run out, and a call that ends within its fuel ends the same way with
  more.  A \<^verbatim>\<open>resume\<close> after that finds no \<^verbatim>\<open>case\<close> and runs nothing.
\<close>

theorem no_suspension_points_completes:
  assumes ns: "suspension_points 1 body = []"
  shows "frame_layout (registrations body) = Some size_align_zero
       \<and> body_of size_align_zero = NoScratch \<and> scratch_bytes (body_of size_align_zero) = 0
       \<and> (exec P k 1 SENTINEL body Run ((coroutine_init p)\<lparr>m_state := Some st, m_next := 0\<rparr>) = Continue ca
            \<and> return_void P = Some h \<and> h (promise ca) = (None, pn)
          \<longrightarrow> start P k body st (coroutine_init p)
              = Finished (ca\<lparr>m_next := SENTINEL, promise := finalize P pn, m_state := None,
                             trace := trace ca @ [EvReturnVoid, EvFinalize]\<rparr>))
       \<and> (exec P k 1 SENTINEL body Run ((coroutine_init p)\<lparr>m_state := Some st, m_next := 0\<rparr>) = GotoFinalize ca
          \<longrightarrow> start P k body st (coroutine_init p) = Finished (finalizer P ca))
       \<and> (exec P k 1 SENTINEL body Run ((coroutine_init p)\<lparr>m_state := Some st, m_next := 0\<rparr>) = Thrown x ca
            \<and> m_eh ca = SENTINEL
          \<longrightarrow> start P k body st (coroutine_init p) = unhandled P x (ca\<lparr>m_next := SENTINEL\<rparr>))
       \<and> (exec P k 1 SENTINEL body Run ((coroutine_init p)\<lparr>m_state := Some st, m_next := 0\<rparr>) = Thrown x ca
            \<and> m_eh ca \<noteq> SENTINEL \<and> 0 < k
          \<longrightarrow> start P k body st (coroutine_init p)
              = coz_operator P (k - 1) body (Some x) (ca\<lparr>m_next := m_eh ca\<rparr>))
       \<and> (completed (start P k body st (coroutine_init p))
          \<or> start P k body st (coroutine_init p) = Diverged
          \<or> (\<exists>ft. start P k body st (coroutine_init p) = Aborted ft \<and> lacks_return_hook P ft))
       \<and> (loop_free body \<and> labels_fit body \<and> length (try_ordinals 1 body) \<le> k
          \<longrightarrow> start P k body st (coroutine_init p) \<noteq> Diverged)
       \<and> (start P k body st (coroutine_init p) \<noteq> Diverged
          \<longrightarrow> start P (k + j) body st (coroutine_init p) = start P k body st (coroutine_init p))
       \<and> (labels_fit body \<and> (start P k body st (coroutine_init p) = Finished cf
                               \<or> start P k body st (coroutine_init p) = Raised xf cf)
          \<longrightarrow> done_coro cf \<and> resume P kr body cf = Unmatched cf)"
proof -
  let ?c = "(coroutine_init p)\<lparr>m_state := Some st, m_next := 0\<rparr>"
  let ?r = "start P k body st (coroutine_init p)"
  have r: "?r = coz_operator P k body None ?c" by (simp add: start_def invoke_def)
  have d: "dispatch P k body None ?c = exec P k 1 SENTINEL body Run ?c" by (simp add: dispatch_def)
  have fl: "frame_layout (registrations body) = Some size_align_zero"
    by (simp add: no_points_no_registrations [OF ns] frame_layout_fold)
  have bo: "body_of size_align_zero = NoScratch" "scratch_bytes (body_of size_align_zero) = 0"
    by (simp_all add: body_of_def scratch_bytes_def)
  have p1: "?r = Finished (ca\<lparr>m_next := SENTINEL, promise := finalize P pn, m_state := None,
                             trace := trace ca @ [EvReturnVoid, EvFinalize]\<rparr>)"
    if "exec P k 1 SENTINEL body Run ?c = Continue ca" "return_void P = Some h"
       "h (promise ca) = (None, pn)"
  proof -
    from d that(1) have "dispatch P k body None ?c = Continue ca" by simp
    from pass_end_of_body [OF this that(2,3)] show ?thesis by (simp add: r)
  qed
  have p2: "?r = Finished (finalizer P ca)" if "exec P k 1 SENTINEL body Run ?c = GotoFinalize ca"
  proof -
    from d that have "dispatch P k body None ?c = GotoFinalize ca" by simp
    from pass_return [OF this] show ?thesis by (simp add: r)
  qed
  have p3: "?r = unhandled P x (ca\<lparr>m_next := SENTINEL\<rparr>)"
    if "exec P k 1 SENTINEL body Run ?c = Thrown x ca" "m_eh ca = SENTINEL"
  proof -
    from d that(1) have "dispatch P k body None ?c = Thrown x ca" by simp
    from pass_unhandled [OF this that(2)] show ?thesis by (simp add: r)
  qed
  have p4: "?r = coz_operator P (k - 1) body (Some x) (ca\<lparr>m_next := m_eh ca\<rparr>)"
    if "exec P k 1 SENTINEL body Run ?c = Thrown x ca" "m_eh ca \<noteq> SENTINEL" "0 < k"
  proof -
    from d that(1) have "dispatch P k body None ?c = Thrown x ca" by simp
    from pass_handler [OF this that(2,3)] show ?thesis by (simp add: r)
  qed
  have "m_eh ?c \<in> insert SENTINEL (of_nat ` set (try_ordinals 1 body))"
    "m_next ?c = 0 \<or> m_next ?c \<in> of_nat ` set (try_ordinals 1 body)"
    "m_state ?c \<noteq> None" "m_next ?c \<noteq> 0 \<longrightarrow> (None :: 'e option) \<noteq> None"
    by (simp_all add: coroutine_init_def)
  from coz_operator_classified [OF ns this, of P k]
  have cl: "completed ?r \<or> ?r = Diverged \<or> (\<exists>ft. ?r = Aborted ft \<and> lacks_return_hook P ft)"
    unfolding r .
  have tot: "?r \<noteq> Diverged" if "loop_free body" "labels_fit body" "length (try_ordinals 1 body) \<le> k"
    unfolding r using that by (intro start_terminates) (simp_all add: coroutine_init_def)
  have af: "done_coro cf \<and> resume P kr body cf = Unmatched cf"
    if "labels_fit body" "?r = Finished cf \<or> ?r = Raised xf cf"
  proof -
    from cl that(2) have "done_coro cf" by (auto simp: completed_def)
    with resume_done [OF this that(1)] show ?thesis by simp
  qed
  have mo: "start P (k + j) body st (coroutine_init p) = ?r" if "?r \<noteq> Diverged"
    using that unfolding start_def invoke_def by (rule coz_operator_fuel_add)
  from fl bo p1 p2 p3 p4 cl tot mo af show ?thesis by blast
qed

theorem no_suspension_points_completes_witness:
  "suspension_points 1 guarded = [] \<and> loop_free guarded \<and> labels_fit guarded
   \<and> length (try_ordinals 1 guarded) \<le> 1
   \<and> exec unit_promise 1 1 SENTINEL guarded Run started = Thrown () (emit [EvExec] (started\<lparr>m_eh := 1\<rparr>))
   \<and> start unit_promise 1 guarded () fresh
       = Finished (started\<lparr>m_next := SENTINEL, m_state := None,
                     trace := [EvExec, EvHandler (), EvReturnVoid, EvFinalize]\<rparr>)
   \<and> start unit_promise 1 guarded () fresh \<noteq> Diverged
   \<and> start unit_promise 3 guarded () fresh = start unit_promise 1 guarded () fresh
   \<and> done_coro (started\<lparr>m_next := SENTINEL, m_state := None,
                     trace := [EvExec, EvHandler (), EvReturnVoid, EvFinalize]\<rparr>)
   \<and> resume unit_promise 0 guarded (started\<lparr>m_next := SENTINEL, m_state := None,
                     trace := [EvExec, EvHandler (), EvReturnVoid, EvFinalize]\<rparr>)
       = Unmatched (started\<lparr>m_next := SENTINEL, m_state := None,
                     trace := [EvExec, EvHandler (), EvReturnVoid, EvFinalize]\<rparr>)
   \<and> suspension_points 1 counting = []
   \<and> start unit_promise 3 counting 0 (coroutine_init \<lparr>m_data = None\<rparr>)
       = Finished \<lparr>m_next = SENTINEL, m_eh = SENTINEL, promise = \<lparr>m_data = None\<rparr>, m_state = None,
           m_mem_tmp = None,
           trace = [EvExec, EvExec, EvExec, EvExec, EvExec, EvExec, EvReturnVoid, EvFinalize]\<rparr>"
proof -
  let ?ca = "emit [EvExec] (started\<lparr>m_eh := 1\<rparr>)"
  let ?cf = "started\<lparr>m_next := SENTINEL, m_state := None,
                     trace := [EvExec, EvHandler (), EvReturnVoid, EvFinalize]\<rparr>"
  have ns: "suspension_points 1 guarded = []" by (simp add: guarded_def throwing_def)
  note T = no_suspension_points_completes [OF ns, where P = unit_promise and k = 1
      and p = "\<lparr>m_data = None\<rparr>" and st = "()" and ca = ?ca and x = "()" and cf = ?cf and xf = "()"
      and kr = 0 and h = "\<lambda>p. (None, p)" and pn = "\<lparr>m_data = None\<rparr>" and j = 2]
  have i: "coroutine_init \<lparr>m_data = None\<rparr> = fresh"
    "fresh\<lparr>m_state := Some (), m_next := 0\<rparr> = started"
    by (simp_all add: fresh_def started_def)
  have lf: "loop_free guarded" "labels_fit guarded" "length (try_ordinals 1 guarded) \<le> 1"
    by (simp_all add: guarded_def throwing_def labels_fit_def)
  have e: "exec unit_promise 1 1 SENTINEL guarded Run started = Thrown () ?ca"
    by (simp add: instance_defs engine_defs)
  have m: "m_eh ?ca \<noteq> SENTINEL" by (simp add: instance_defs emit_def SENTINEL_def)
  from T e m have "start unit_promise 1 guarded () fresh
       = coz_operator unit_promise (1 - 1) guarded (Some ()) (?ca\<lparr>m_next := m_eh ?ca\<rparr>)"
    unfolding i by blast
  also have "\<dots> = Finished ?cf"
    by (simp add: instance_defs engine_defs SENTINEL_def)
  finally have s: "start unit_promise 1 guarded () fresh = Finished ?cf" .
  from T lf have nd: "start unit_promise 1 guarded () fresh \<noteq> Diverged"
    unfolding i by blast
  from T nd have "start unit_promise (1 + 2) guarded () fresh = start unit_promise 1 guarded () fresh"
    unfolding i by blast
  then have mo: "start unit_promise 3 guarded () fresh = start unit_promise 1 guarded () fresh"
    by (simp add: numeral_3_eq_3)
  from T lf(2) s have "done_coro ?cf \<and> resume unit_promise 0 guarded ?cf = Unmatched ?cf"
    unfolding i by blast
  then have g: "done_coro ?cf" "resume unit_promise 0 guarded ?cf = Unmatched ?cf" by simp_all
  let ?c0 = "(coroutine_init \<lparr>m_data = None\<rparr>)\<lparr>m_state := Some (0 :: nat), m_next := 0\<rparr>
      :: (unit gen_promise, nat, unit, unit) coroutine"
  let ?cl = "\<lparr>m_next = 0, m_eh = SENTINEL, promise = \<lparr>m_data = None\<rparr>, m_state = Some (3 :: nat),
           m_mem_tmp = None,
           trace = [EvExec, EvExec, EvExec, EvExec, EvExec, EvExec]\<rparr>
      :: (unit gen_promise, nat, unit, unit) coroutine"
  have nc: "suspension_points 1 counting = []" by (simp add: counting_def)
  note L = no_suspension_points_completes [OF nc, where P = unit_promise and k = 3
      and p = "\<lparr>m_data = None\<rparr>" and st = 0 and ca = ?cl and x = "()" and cf = ?cl and xf = "()"
      and kr = 0 and h = "\<lambda>p. (None, p)" and pn = "\<lparr>m_data = None\<rparr>" and j = 0]
  have el: "exec unit_promise 3 1 SENTINEL counting Run ?c0 = Continue ?cl
      \<and> return_void unit_promise = Some (\<lambda>p. (None, p))
      \<and> (\<lambda>p. (None, p)) (promise ?cl) = (None, \<lparr>m_data = None\<rparr>)"
    by (simp add: numeral_3_eq_3 counting_def for_step_def run_plain_def emit_def coroutine_init_def
        unit_promise_def promise_type_def)
  from L el have "start unit_promise 3 counting 0 (coroutine_init \<lparr>m_data = None\<rparr>)
       = Finished (?cl\<lparr>m_next := SENTINEL, promise := finalize unit_promise \<lparr>m_data = None\<rparr>,
            m_state := None, trace := trace ?cl @ [EvReturnVoid, EvFinalize]\<rparr>)"
    by blast
  then have sl: "start unit_promise 3 counting 0 (coroutine_init \<lparr>m_data = None\<rparr>)
       = Finished \<lparr>m_next = SENTINEL, m_eh = SENTINEL, promise = \<lparr>m_data = None\<rparr>, m_state = None,
           m_mem_tmp = None,
           trace = [EvExec, EvExec, EvExec, EvExec, EvExec, EvExec, EvReturnVoid, EvFinalize]\<rparr>"
    by (simp add: unit_promise_def promise_type_def)
  from ns lf e s nd mo g nc sl show ?thesis by simp
qed

end
